theory Spec2Isabelle
  imports Complex_Main "HOL-Library.Multiset"
begin

section \<open>Data model\<close>

text \<open>
  A detection event is the dictionary built by \<^verbatim>\<open>DogBarkDetector.detect_in_waveform\<close>
  (\<^verbatim>\<open>dog_bark_detector/detector.py\<close>): the keys \<^verbatim>\<open>start_time\<close>, \<^verbatim>\<open>end_time\<close>,
  \<^verbatim>\<open>confidence\<close>, \<^verbatim>\<open>class_name\<close> and \<^verbatim>\<open>class_index\<close>. The last two are
  \<^verbatim>\<open>None\<close> until a dog class has been selected, hence the option types.

  Times and scores are Python floats in the source. They are modelled as exact real
  numbers: comparisons, \<^verbatim>\<open>max\<close>, \<^verbatim>\<open>min\<close>, sums and differences are the mathematical
  ones, and IEEE rounding and NaN are outside the model.
\<close>

record detection =
  start_time :: real
  end_time :: real
  confidence :: real
  class_name :: "string option"
  class_index :: "nat option"

text \<open>The dictionary literal with all five keys.\<close>

definition mk_detection ::
  "real \<Rightarrow> real \<Rightarrow> real \<Rightarrow> string option \<Rightarrow> nat option \<Rightarrow> detection" where
  "mk_detection s e c n i =
     \<lparr>start_time = s, end_time = e, confidence = c, class_name = n, class_index = i\<rparr>"

section \<open>Event merger: \<^verbatim>\<open>DogBarkDetector.merge_detections\<close>\<close>

text \<open>
  \<^verbatim>\<open>
  if not detections:
      return []
  sorted_detections = sorted(detections, key=lambda x: x['start_time'])
  merged = []
  current = sorted_detections[0].copy()
  for detection in sorted_detections[1:]:
      if detection['start_time'] - current['end_time'] <= merge_gap:
          current['end_time'] = max(current['end_time'], detection['end_time'])
          current['confidence'] = max(current['confidence'], detection['confidence'])
      else:
          merged.append(current)
          current = detection.copy()
  merged.append(current)
  return merged
  \<close>
  The \<^verbatim>\<open>for\<close> loop is \<open>merge_loop\<close>, with the local variables \<^verbatim>\<open>merged\<close> and
  \<^verbatim>\<open>current\<close> passed as state; its last equation is the \<^verbatim>\<open>merged.append(current)\<close>
  after the loop. Python's \<^verbatim>\<open>sorted\<close> with a key is a stable sort, as is \<open>sort_key\<close>.
  The source has no check of \<^verbatim>\<open>merge_gap\<close> and no \<^verbatim>\<open>raise\<close>, so the model
  returns a plain list.
\<close>

fun merge_loop ::
  "real \<Rightarrow> detection list \<Rightarrow> detection \<Rightarrow> detection list \<Rightarrow> detection list" where
  "merge_loop merge_gap merged current [] = merged @ [current]"
| "merge_loop merge_gap merged current (detection # rest) =
     (if start_time detection - end_time current \<le> merge_gap
      then merge_loop merge_gap merged
             (current\<lparr>end_time := max (end_time current) (end_time detection),
                      confidence := max (confidence current) (confidence detection)\<rparr>) rest
      else merge_loop merge_gap (merged @ [current]) detection rest)"

definition merge_detections :: "detection list \<Rightarrow> real \<Rightarrow> detection list" where
  "merge_detections detections merge_gap =
     (if detections = [] then []
      else let sorted_detections = sort_key start_time detections
           in merge_loop merge_gap [] (hd sorted_detections) (tl sorted_detections))"

subsection \<open>The merge algorithm in the words of the specification\<close>

text \<open>
  The specification describes the scan without an output accumulator: an event within
  \<open>merge_gap\<close> of the running end of the current episode is absorbed, any other event
  closes the current episode and starts the next one. \<open>spec_absorb\<close> is the absorption
  step, \<open>spec_scan\<close> the scan, and \<open>spec_chain_within\<close> says that every event of a
  list starts within the gap of the running (accumulated) end.
\<close>

definition spec_absorb :: "detection \<Rightarrow> detection \<Rightarrow> detection" where
  "spec_absorb current event =
     current\<lparr>end_time := max (end_time current) (end_time event),
             confidence := max (confidence current) (confidence event)\<rparr>"

fun spec_scan :: "real \<Rightarrow> detection \<Rightarrow> detection list \<Rightarrow> detection list" where
  "spec_scan g current [] = [current]"
| "spec_scan g current (event # events) =
     (if start_time event - end_time current \<le> g
      then spec_scan g (spec_absorb current event) events
      else current # spec_scan g event events)"

fun spec_chain_within :: "real \<Rightarrow> real \<Rightarrow> detection list \<Rightarrow> bool" where
  "spec_chain_within g running_end [] = True"
| "spec_chain_within g running_end (event # events) =
     (start_time event - running_end \<le> g \<and>
      spec_chain_within g (max running_end (end_time event)) events)"

section \<open>Event extractor: \<^verbatim>\<open>DogBarkDetector.detect_in_waveform\<close>\<close>

text \<open>
  The two exceptions the modelled code can raise: the \<^verbatim>\<open>ValueError\<close> of the sample
  rate check, and the \<^verbatim>\<open>IndexError\<close> of a list or array index out of range.
\<close>

datatype error = ValueError | IndexError

text \<open>
  The fields of a \<^verbatim>\<open>DogBarkDetector\<close> that detection reads. \<open>model\<close> is the loaded
  YAMNet model, an external collaborator: it maps a waveform to the rows of
  \<^verbatim>\<open>scores.numpy()\<close>, one vector of class scores per frame. \<open>dog_class_indices\<close> is
  kept as a list, since the inner loop depends on its order.
\<close>

record 'buf detector =
  confidence_threshold :: real
  model :: "'buf \<Rightarrow> real list list"
  class_names :: "string list"
  dog_class_indices :: "nat list"

definition frame_duration :: real where
  "frame_duration = 0.96"

definition hop_duration :: real where
  "hop_duration = 0.48"

text \<open>
  \<^verbatim>\<open>
  max_dog_score = 0.0
  max_dog_class = None
  max_dog_class_idx = None
  for class_idx in self.dog_class_indices:
      if frame_scores[class_idx] > max_dog_score:
          max_dog_score = frame_scores[class_idx]
          max_dog_class = self.class_names[class_idx]
          max_dog_class_idx = class_idx
  \<close>
  The inner loop, with the three locals as a triple; the caller supplies the initial
  \<open>(0, None, None)\<close>.
\<close>

fun best_dog_class ::
  "string list \<Rightarrow> real list \<Rightarrow> nat list \<Rightarrow> real \<times> string option \<times> nat option
     \<Rightarrow> error + real \<times> string option \<times> nat option" where
  "best_dog_class names frame_scores [] best = Inr best"
| "best_dog_class names frame_scores (class_idx # rest)
       (max_dog_score, max_dog_class, max_dog_class_idx) =
     (if length frame_scores \<le> class_idx then Inl IndexError
      else if frame_scores ! class_idx > max_dog_score
      then (if length names \<le> class_idx then Inl IndexError
            else best_dog_class names frame_scores rest
                   (frame_scores ! class_idx, Some (names ! class_idx), Some class_idx))
      else best_dog_class names frame_scores rest
             (max_dog_score, max_dog_class, max_dog_class_idx))"

text \<open>
  \<^verbatim>\<open>
  for frame_idx, frame_scores in enumerate(scores.numpy()):
      ...
      if max_dog_score >= self.confidence_threshold:
          start_time = frame_idx * hop_duration
          end_time = start_time + frame_duration
          detections.append({'start_time': start_time, 'end_time': end_time,
              'confidence': float(max_dog_score), 'class_name': max_dog_class,
              'class_index': max_dog_class_idx})
  return detections
  \<close>
\<close>

fun frame_loop ::
  "'buf detector \<Rightarrow> nat \<Rightarrow> real list list \<Rightarrow> detection list \<Rightarrow> error + detection list" where
  "frame_loop det frame_idx [] detections = Inr detections"
| "frame_loop det frame_idx (frame_scores # rest) detections =
     (case best_dog_class (class_names det) frame_scores (dog_class_indices det)
             (0, None, None) of
        Inl e \<Rightarrow> Inl e
      | Inr (max_dog_score, max_dog_class, max_dog_class_idx) \<Rightarrow>
          if max_dog_score \<ge> confidence_threshold det
          then let start = real frame_idx * hop_duration;
                   end = start + frame_duration
               in frame_loop det (Suc frame_idx) rest
                    (detections @
                      [\<lparr>start_time = start, end_time = end, confidence = max_dog_score,
                        class_name = max_dog_class, class_index = max_dog_class_idx\<rparr>])
          else frame_loop det (Suc frame_idx) rest detections)"

definition detect_in_waveform ::
  "'buf detector \<Rightarrow> 'buf \<Rightarrow> nat \<Rightarrow> error + detection list" where
  "detect_in_waveform det waveform sample_rate =
     (if sample_rate \<noteq> 16000 then Inl ValueError
      else frame_loop det 0 (model det waveform) [])"

subsection \<open>The event extractor in the words of the specification\<close>

text \<open>
  The specification gives the events frame by frame: the score of a frame is the maximum
  score over the dog class indices; a frame whose score reaches the threshold gives one
  event, labelled with the first dog class, in the order of \<open>dog_class_indices\<close>, that
  has this score; frame \<open>i\<close> spans from \<open>i * hop_duration\<close> for \<open>frame_duration\<close>
  seconds; any other frame gives no event.
\<close>

definition spec_max_dog_score :: "real list \<Rightarrow> nat list \<Rightarrow> real" where
  "spec_max_dog_score frame_scores indices = Max ((\<lambda>c. frame_scores ! c) ` set indices)"

definition spec_frame_event :: "'buf detector \<Rightarrow> nat \<Rightarrow> real list \<Rightarrow> detection option" where
  "spec_frame_event det i frame_scores =
     (let m = spec_max_dog_score frame_scores (dog_class_indices det)
      in if dog_class_indices det \<noteq> [] \<and> confidence_threshold det \<le> m
         then map_option
                (\<lambda>c. \<lparr>start_time = real i * hop_duration,
                       end_time = real i * hop_duration + frame_duration,
                       confidence = m,
                       class_name = Some (class_names det ! c),
                       class_index = Some c\<rparr>)
                (find (\<lambda>c. frame_scores ! c = m) (dog_class_indices det))
         else None)"

definition spec_events :: "'buf detector \<Rightarrow> real list list \<Rightarrow> detection list" where
  "spec_events det frames =
     List.map_filter (\<lambda>(i, frame_scores). spec_frame_event det i frame_scores)
       (enumerate 0 frames)"

section \<open>Summary reducer: \<^verbatim>\<open>DogBarkDetector.get_detection_summary\<close>\<close>

text \<open>
  The summary is a dictionary from key to number, a map from strings to values.
  \<^verbatim>\<open>
  if not detections:
      return {'total_events': 0, 'total_duration': 0.0, 'avg_confidence': 0.0,
              'max_confidence': 0.0, 'min_confidence': 0.0}
  confidences = [d['confidence'] for d in detections]
  durations = [d['end_time'] - d['start_time'] for d in detections]
  return {'total_events': len(detections), 'total_duration': sum(durations),
          'avg_duration': np.mean(durations), 'avg_confidence': np.mean(confidences),
          'max_confidence': max(confidences), 'min_confidence': min(confidences)}
  \<close>
\<close>

datatype pyval = PyInt int | PyFloat real

definition get_detection_summary :: "detection list \<Rightarrow> (string \<rightharpoonup> pyval)" where
  "get_detection_summary detections =
     (if detections = [] then
        [''total_events'' \<mapsto> PyInt 0,
         ''total_duration'' \<mapsto> PyFloat 0,
         ''avg_confidence'' \<mapsto> PyFloat 0,
         ''max_confidence'' \<mapsto> PyFloat 0,
         ''min_confidence'' \<mapsto> PyFloat 0]
      else
        let confidences = map confidence detections;
            durations = map (\<lambda>d. end_time d - start_time d) detections
        in [''total_events'' \<mapsto> PyInt (int (length detections)),
            ''total_duration'' \<mapsto> PyFloat (sum_list durations),
            ''avg_duration'' \<mapsto> PyFloat (sum_list durations / real (length durations)),
            ''avg_confidence'' \<mapsto> PyFloat (sum_list confidences / real (length confidences)),
            ''max_confidence'' \<mapsto> PyFloat (Max (set confidences)),
            ''min_confidence'' \<mapsto> PyFloat (Min (set confidences))])"

section \<open>Chunk scheduler: \<^verbatim>\<open>AudioProcessor.process_in_chunks\<close>\<close>

text \<open>
  \<^verbatim>\<open>
  total_duration = self.get_audio_duration(file_path)
  offset = 0.0
  while offset < total_duration:
      current_chunk_duration = min(chunk_duration, total_duration - offset)
      audio_chunk, _ = self.load_audio(file_path, duration=current_chunk_duration,
                                       offset=offset)
      end_time = offset + current_chunk_duration
      yield audio_chunk, offset, end_time
      offset += chunk_duration - overlap
      if offset >= total_duration:
          break
  \<close>
  \<^verbatim>\<open>process_in_chunks\<close> is a generator. Its state between two requests is where it is
  suspended and the value of the local \<^verbatim>\<open>offset\<close>: not started, suspended at the
  \<^verbatim>\<open>yield\<close>, or finished. \<open>process_in_chunks_next\<close> is one request for the next
  chunk: it resumes the body up to the next \<^verbatim>\<open>yield\<close> (\<open>Yield\<close>, with the chunk and
  the new state) or to the end of the body (\<open>StopIteration\<close>, after which the generator
  is finished). \<open>process_in_chunks_loop\<close> is the body from the test of the \<^verbatim>\<open>while\<close>
  to the \<^verbatim>\<open>yield\<close>. The file reader is external: \<open>load_audio\<close> maps a duration and an
  offset to a buffer, and \<open>total_duration\<close> is the duration that
  \<^verbatim>\<open>get_audio_duration\<close> reports. The reader is modelled as a function that always
  returns; the properties below rely on it only for requests of a positive duration at
  an offset in \<open>[0, D)\<close>, the requests of a run with a valid configuration. The source has no check of \<^verbatim>\<open>chunk_duration\<close>
  or \<^verbatim>\<open>overlap\<close> and no \<^verbatim>\<open>raise\<close>.
\<close>

datatype gen_state = NotStarted | Suspended real | Finished

datatype 'buf gen_result = Yield "'buf \<times> real \<times> real" gen_state | StopIteration

definition chunk_audio :: "'buf \<times> real \<times> real \<Rightarrow> 'buf" where
  "chunk_audio chunk = fst chunk"

definition chunk_start :: "'buf \<times> real \<times> real \<Rightarrow> real" where
  "chunk_start chunk = fst (snd chunk)"

definition chunk_end :: "'buf \<times> real \<times> real \<Rightarrow> real" where
  "chunk_end chunk = snd (snd chunk)"

definition process_in_chunks_loop ::
  "(real \<Rightarrow> real \<Rightarrow> 'buf) \<Rightarrow> real \<Rightarrow> real \<Rightarrow> real \<Rightarrow> 'buf gen_result" where
  "process_in_chunks_loop load_audio total_duration chunk_duration offset =
     (if offset < total_duration
      then let current_chunk_duration = min chunk_duration (total_duration - offset);
               audio_chunk = load_audio current_chunk_duration offset;
               end_time = offset + current_chunk_duration
           in Yield (audio_chunk, offset, end_time) (Suspended offset)
      else StopIteration)"

definition process_in_chunks_next ::
  "(real \<Rightarrow> real \<Rightarrow> 'buf) \<Rightarrow> real \<Rightarrow> real \<Rightarrow> real \<Rightarrow> gen_state \<Rightarrow> 'buf gen_result" where
  "process_in_chunks_next load_audio total_duration chunk_duration overlap st =
     (case st of
        NotStarted \<Rightarrow> process_in_chunks_loop load_audio total_duration chunk_duration 0
      | Suspended offset \<Rightarrow>
          let offset' = offset + (chunk_duration - overlap)
          in if offset' \<ge> total_duration then StopIteration
             else process_in_chunks_loop load_audio total_duration chunk_duration offset'
      | Finished \<Rightarrow> StopIteration)"

text \<open>
  \<open>process_in_chunks\<close> runs the generator from a state to exhaustion and collects the
  chunks it yields; from \<open>NotStarted\<close> this is \<^verbatim>\<open>list(process_in_chunks(...))\<close>. The
  loop need not terminate, so the function is partial: \<open>None\<close> is a generator that
  never stops.
\<close>

partial_function (option) process_in_chunks ::
  "(real \<Rightarrow> real \<Rightarrow> 'buf) \<Rightarrow> real \<Rightarrow> real \<Rightarrow> real \<Rightarrow> gen_state
     \<Rightarrow> ('buf \<times> real \<times> real) list option" where
  "process_in_chunks load_audio total_duration chunk_duration overlap st =
     (case process_in_chunks_next load_audio total_duration chunk_duration overlap st of
        StopIteration \<Rightarrow> Some []
      | Yield chunk st' \<Rightarrow>
          Option.bind (process_in_chunks load_audio total_duration chunk_duration overlap st')
            (\<lambda>chunks. Some (chunk # chunks)))"

declare process_in_chunks.simps [code]

subsection \<open>The chunk sequence in the words of the specification\<close>

text \<open>
  The specification gives the chunks in closed form: chunk \<open>i\<close> starts at
  \<open>i * (C - O)\<close>, spans \<open>C\<close> seconds but is cut off at the end \<open>D\<close> of the recording,
  and the chunks are those whose start is below \<open>D\<close>.
\<close>

definition spec_chunk ::
  "(real \<Rightarrow> real \<Rightarrow> 'buf) \<Rightarrow> real \<Rightarrow> real \<Rightarrow> real \<Rightarrow> nat \<Rightarrow> 'buf \<times> real \<times> real" where
  "spec_chunk load_audio D C ov i =
     (let start = real i * (C - ov); end = min (start + C) D
      in (load_audio (end - start) start, start, end))"

definition spec_chunks ::
  "(real \<Rightarrow> real \<Rightarrow> 'buf) \<Rightarrow> real \<Rightarrow> real \<Rightarrow> real \<Rightarrow> ('buf \<times> real \<times> real) list" where
  "spec_chunks load_audio D C ov =
     map (spec_chunk load_audio D C ov) [0 ..< nat \<lceil>D / (C - ov)\<rceil>]"

section \<open>Pipeline: \<^verbatim>\<open>process_audio_file\<close>\<close>

text \<open>
  \<^verbatim>\<open>
  all_detections = []
  for audio_chunk, start_time, end_time in audio_processor.process_in_chunks(
          file_path, chunk_duration=chunk_size, overlap=2.0):
      detections = detector.detect_in_waveform(audio_chunk)
      for detection in detections:
          detection['start_time'] += start_time
          detection['end_time'] += start_time
      all_detections.extend(detections)
  if not no_merge and all_detections:
      all_detections = detector.merge_detections(all_detections, merge_gap=merge_gap)
  return all_detections
  \<close>
  \<open>chunk_loop\<close> is the \<^verbatim>\<open>for\<close> loop over the generator, with \<^verbatim>\<open>all_detections\<close> as
  state; the overlap is the constant 2 of the call, and the sample rate is the default
  argument 16000. An exception of the detector ends the loop. The loop runs as long as
  the generator yields, so it is partial as well.
\<close>

partial_function (option) chunk_loop ::
  "(real \<Rightarrow> real \<Rightarrow> 'buf) \<Rightarrow> real \<Rightarrow> 'buf detector \<Rightarrow> real \<Rightarrow> gen_state \<Rightarrow> detection list
     \<Rightarrow> (error + detection list) option" where
  "chunk_loop load_audio total_duration detector chunk_size st all_detections =
     (case process_in_chunks_next load_audio total_duration chunk_size 2 st of
        StopIteration \<Rightarrow> Some (Inr all_detections)
      | Yield chunk st' \<Rightarrow>
          (case chunk of (audio_chunk, start, end) \<Rightarrow>
            (case detect_in_waveform detector audio_chunk 16000 of
               Inl e \<Rightarrow> Some (Inl e)
             | Inr detections \<Rightarrow>
                 chunk_loop load_audio total_duration detector chunk_size st'
                   (all_detections @
                      map (\<lambda>detection. detection
                             \<lparr>start_time := start_time detection + start,
                              end_time := end_time detection + start\<rparr>) detections))))"

declare chunk_loop.simps [code]

definition process_audio_file ::
  "(real \<Rightarrow> real \<Rightarrow> 'buf) \<Rightarrow> real \<Rightarrow> 'buf detector \<Rightarrow> real \<Rightarrow> real \<Rightarrow> bool
     \<Rightarrow> (error + detection list) option" where
  "process_audio_file load_audio total_duration detector chunk_size merge_gap no_merge =
     (case chunk_loop load_audio total_duration detector chunk_size NotStarted [] of
        None \<Rightarrow> None
      | Some (Inl e) \<Rightarrow> Some (Inl e)
      | Some (Inr all_detections) \<Rightarrow>
          if \<not> no_merge \<and> all_detections \<noteq> []
          then Some (Inr (merge_detections all_detections merge_gap))
          else Some (Inr all_detections))"

section \<open>The event merger on a store of objects\<close>

text \<open>
  Python lists and dictionaries are objects that variables and lists refer to, and
  \<^verbatim>\<open>merge_detections\<close> writes to dictionaries (\<^verbatim>\<open>current['end_time'] = ...\<close>) and to a
  list (\<^verbatim>\<open>merged.append(current)\<close>) in place. To say which objects it writes to, the
  merger is modelled a second time over an explicit store: the dictionaries and the
  lists of the program, each addressed by its position in the store; a list holds the
  addresses of its elements. A new object is added at the end of the store, so existing
  addresses keep their meaning. An address is valid when it is below the length of its
  store; Python has no dangling references, and the properties below assume valid
  addresses.
\<close>

type_synonym addr = nat

record heap =
  dicts :: "detection list"
  lists :: "addr list list"

text \<open>
  The operations the merger uses: a list display or \<^verbatim>\<open>sorted\<close> builds a new list
  (\<open>new_list\<close>), \<^verbatim>\<open>d.copy()\<close> a new dictionary with the same items (\<open>dict_copy\<close>),
  \<^verbatim>\<open>l.append(a)\<close> changes the list \<open>l\<close> in place (\<open>list_append\<close>), and an item
  assignment changes a dictionary in place (\<open>dict_update\<close>).
\<close>

definition new_list :: "heap \<Rightarrow> addr list \<Rightarrow> heap \<times> addr" where
  "new_list h xs = (h\<lparr>lists := lists h @ [xs]\<rparr>, length (lists h))"

definition dict_copy :: "heap \<Rightarrow> addr \<Rightarrow> heap \<times> addr" where
  "dict_copy h a = (h\<lparr>dicts := dicts h @ [dicts h ! a]\<rparr>, length (dicts h))"

definition list_append :: "heap \<Rightarrow> addr \<Rightarrow> addr \<Rightarrow> heap" where
  "list_append h l a = h\<lparr>lists := (lists h)[l := lists h ! l @ [a]]\<rparr>"

definition dict_update :: "heap \<Rightarrow> addr \<Rightarrow> (detection \<Rightarrow> detection) \<Rightarrow> heap" where
  "dict_update h a f = h\<lparr>dicts := (dicts h)[a := f (dicts h ! a)]\<rparr>"

text \<open>
  The loop and the function follow the source statement by statement; the two item
  assignments of the absorbing branch are two successive updates, the second reading the
  store the first one left. The slice \<^verbatim>\<open>sorted_detections[1:]\<close> is a temporary list that
  only the loop reads; its elements are passed to the loop directly. The result is the
  final store and the address of the returned list.
\<close>

fun merge_loop_heap :: "real \<Rightarrow> addr \<Rightarrow> addr list \<Rightarrow> heap \<Rightarrow> addr \<Rightarrow> heap \<times> addr" where
  "merge_loop_heap merge_gap merged [] h current = (h, current)"
| "merge_loop_heap merge_gap merged (detection # rest) h current =
     (if start_time (dicts h ! detection) - end_time (dicts h ! current) \<le> merge_gap
      then let h1 = dict_update h current
                      (\<lambda>d. d\<lparr>end_time := max (end_time (dicts h ! current))
                                             (end_time (dicts h ! detection))\<rparr>);
               h2 = dict_update h1 current
                      (\<lambda>d. d\<lparr>confidence := max (confidence (dicts h1 ! current))
                                               (confidence (dicts h1 ! detection))\<rparr>)
           in merge_loop_heap merge_gap merged rest h2 current
      else let h1 = list_append h merged current;
               (h2, current') = dict_copy h1 detection
           in merge_loop_heap merge_gap merged rest h2 current')"

definition merge_detections_heap :: "heap \<Rightarrow> addr \<Rightarrow> real \<Rightarrow> heap \<times> addr" where
  "merge_detections_heap h detections merge_gap =
     (if lists h ! detections = [] then new_list h []
      else let (h1, sorted_detections) =
                 new_list h (sort_key (\<lambda>a. start_time (dicts h ! a)) (lists h ! detections));
               (h2, merged) = new_list h1 [];
               (h3, current) = dict_copy h2 (hd (lists h2 ! sorted_detections));
               (h4, current') =
                 merge_loop_heap merge_gap merged (tl (lists h3 ! sorted_detections)) h3 current
           in (list_append h4 merged current', merged))"

section \<open>Properties of the event merger\<close>

lemma merge_loop_scan:
  "merge_loop g merged current ds = merged @ spec_scan g current ds"
  by (induction ds arbitrary: merged current) (simp_all add: spec_absorb_def)

lemma sort_key_nonempty: "xs \<noteq> [] \<Longrightarrow> sort_key f xs \<noteq> []"
  by (metis length_0_conv length_sort)

lemma merge_detections_scan:
  "detections \<noteq> [] \<Longrightarrow>
   merge_detections detections g =
     spec_scan g (hd (sort_key start_time detections)) (tl (sort_key start_time detections))"
  by (simp add: merge_detections_def merge_loop_scan Let_def)

lemma chain_single_episode:
  "spec_chain_within g (end_time current) es \<Longrightarrow>
   spec_scan g current es =
     [current\<lparr>end_time := Max (end_time ` set (current # es)),
              confidence := Max (confidence ` set (current # es))\<rparr>]"
proof (induction es arbitrary: current)
  case Nil
  then show ?case by simp
next
  case (Cons e es)
  have c: "spec_chain_within g (end_time (spec_absorb current e)) es"
    using Cons.prems by (simp add: spec_absorb_def)
  have m1: "Max (end_time ` set (spec_absorb current e # es))
              = Max (end_time ` set (current # e # es))"
    by (cases "es = []") (simp_all add: spec_absorb_def max.assoc)
  have m2: "Max (confidence ` set (spec_absorb current e # es))
              = Max (confidence ` set (current # e # es))"
    by (cases "es = []") (simp_all add: spec_absorb_def max.assoc)
  from Cons.prems
  have "spec_scan g current (e # es) = spec_scan g (spec_absorb current e) es"
    by simp
  also have "\<dots> = [(spec_absorb current e)
        \<lparr>end_time := Max (end_time ` set (spec_absorb current e # es)),
         confidence := Max (confidence ` set (spec_absorb current e # es))\<rparr>]"
    using Cons.IH[OF c] .
  finally show ?case unfolding m1 m2 by (simp add: spec_absorb_def)
qed

lemma spec_scan_Cons:
  "\<exists>x xs. spec_scan g c ds = x # xs \<and> start_time x = start_time c"
proof (induction ds arbitrary: c)
  case Nil
  then show ?case by simp
next
  case (Cons d ds)
  show ?case
  proof (cases "start_time d - end_time c \<le> g")
    case True
    have "start_time (spec_absorb c d) = start_time c" by (simp add: spec_absorb_def)
    then show ?thesis using True Cons.IH[of "spec_absorb c d"] by simp
  next
    case False
    then show ?thesis by simp
  qed
qed

lemma spec_scan_starts:
  "start_time ` set (spec_scan g c ds) \<subseteq> start_time ` set (c # ds)"
proof (induction ds arbitrary: c)
  case Nil
  then show ?case by simp
next
  case (Cons d ds)
  show ?case
  proof (cases "start_time d - end_time c \<le> g")
    case True
    then have "spec_scan g c (d # ds) = spec_scan g (spec_absorb c d) ds" by simp
    moreover have "start_time ` set (spec_absorb c d # ds) \<subseteq> start_time ` set (c # d # ds)"
      by (auto simp: spec_absorb_def)
    ultimately show ?thesis using Cons.IH[of "spec_absorb c d"] by auto
  next
    case False
    then have "spec_scan g c (d # ds) = c # spec_scan g d ds" by simp
    then show ?thesis using Cons.IH[of d] by auto
  qed
qed

lemma spec_scan_sorted:
  "sorted (map start_time (c # ds)) \<Longrightarrow> sorted (map start_time (spec_scan g c ds))"
proof (induction ds arbitrary: c)
  case Nil
  then show ?case by simp
next
  case (Cons d ds)
  show ?case
  proof (cases "start_time d - end_time c \<le> g")
    case True
    have "sorted (map start_time (spec_absorb c d # ds))"
      using Cons.prems by (auto simp: spec_absorb_def)
    then show ?thesis using True Cons.IH[of "spec_absorb c d"] by simp
  next
    case False
    have s: "sorted (map start_time (spec_scan g d ds))"
      using Cons.prems Cons.IH[of d] by simp
    have "\<forall>y \<in> set (spec_scan g d ds). start_time c \<le> start_time y"
    proof
      fix y assume "y \<in> set (spec_scan g d ds)"
      then have "start_time y \<in> start_time ` set (d # ds)"
        using spec_scan_starts[of g d ds] by blast
      then show "start_time c \<le> start_time y" using Cons.prems by auto
    qed
    then show ?thesis using False s by simp
  qed
qed

lemma spec_scan_separated:
  "successively (\<lambda>a b. \<not> (start_time b - end_time a \<le> g)) (spec_scan g c ds)"
proof (induction ds arbitrary: c)
  case Nil
  then show ?case by simp
next
  case (Cons d ds)
  show ?case
  proof (cases "start_time d - end_time c \<le> g")
    case True
    then show ?thesis using Cons.IH[of "spec_absorb c d"] by simp
  next
    case False
    obtain x xs where x: "spec_scan g d ds = x # xs" "start_time x = start_time d"
      using spec_scan_Cons by blast
    then show ?thesis using False Cons.IH[of d] by simp
  qed
qed

lemma spec_scan_id:
  "successively (\<lambda>a b. \<not> (start_time b - end_time a \<le> g)) (c # ds) \<Longrightarrow>
   spec_scan g c ds = c # ds"
  by (induction ds arbitrary: c) auto

lemma merge_detections_sorted: "sorted (map start_time (merge_detections L g))"
proof (cases "L = []")
  case True
  then show ?thesis by (simp add: merge_detections_def)
next
  case False
  then have ne: "sort_key start_time L \<noteq> []" by (rule sort_key_nonempty)
  have "sorted (map start_time (hd (sort_key start_time L) # tl (sort_key start_time L)))"
    using ne by simp
  then show ?thesis
    unfolding merge_detections_scan[OF False] by (rule spec_scan_sorted)
qed

lemma merge_detections_separated:
  "successively (\<lambda>a b. \<not> (start_time b - end_time a \<le> g)) (merge_detections L g)"
proof (cases "L = []")
  case True
  then show ?thesis by (simp add: merge_detections_def)
next
  case False
  show ?thesis
    unfolding merge_detections_scan[OF False] by (rule spec_scan_separated)
qed

lemma merge_detections_fixed:
  assumes "sorted (map start_time L)"
    and "successively (\<lambda>a b. \<not> (start_time b - end_time a \<le> g)) L"
  shows "merge_detections L g = L"
proof (cases L)
  case Nil
  then show ?thesis by (simp add: merge_detections_def)
next
  case (Cons c ds)
  have "sort_key start_time L = L" using assms(1) by (rule sort_key_id_if_sorted)
  then have "merge_detections L g = spec_scan g c ds"
    using Cons by (simp add: merge_detections_scan)
  then show ?thesis using assms(2) Cons by (simp add: spec_scan_id)
qed

subsection \<open>C1: the merge algorithm\<close>

text \<open>
  Claim C1. For every non-empty list of detection events and every \<open>merge_gap \<ge> 0\<close>,
  \<open>merge_detections\<close> sorts the events by \<open>start_time\<close> ascending with a stable sort
  (the sorted list \<open>first # rest\<close> is ordered by start time, is a permutation of the
  input, and keeps events of equal start time in their input order), and then scans it
  from \<open>first\<close> as the specification words it (\<open>spec_scan\<close>): an event whose
  \<open>start_time\<close> minus the accumulated \<open>end_time\<close> of the current episode is at most
  \<open>merge_gap\<close> is absorbed (the end and the confidence become the maxima, the label of
  the current episode is kept), any other event closes the current episode and starts a
  new one. A chain of events each within \<open>merge_gap\<close> of the running end merges into a
  single episode that carries the label of the earliest event. The three scenarios of
  the specification hold for any class labels.
\<close>

theorem merge_detections_algorithm:
  assumes "detections \<noteq> []" and "0 \<le> merge_gap"
  shows "(\<exists>first rest.
            first # rest = sort_key start_time detections \<and>
            sorted (map start_time (first # rest)) \<and>
            mset (first # rest) = mset detections \<and>
            (\<forall>k. filter (\<lambda>e. start_time e = k) (first # rest)
                   = filter (\<lambda>e. start_time e = k) detections) \<and>
            merge_detections detections merge_gap = spec_scan merge_gap first rest \<and>
            (spec_chain_within merge_gap (end_time first) rest \<longrightarrow>
               merge_detections detections merge_gap =
                 [first\<lparr>end_time := Max (end_time ` set detections),
                         confidence := Max (confidence ` set detections)\<rparr>]))
       \<and> merge_detections
            [mk_detection 0 1 0.5 n1 i1, mk_detection 0.5 1.5 0.7 n2 i2,
             mk_detection 3 4 0.6 n3 i3] 1
           = [mk_detection 0 1.5 0.7 n1 i1, mk_detection 3 4 0.6 n3 i3]
       \<and> merge_detections [mk_detection 0 1 0.5 n1 i1, mk_detection 1 2 0.6 n2 i2] 0
           = [mk_detection 0 2 0.6 n1 i1]
       \<and> merge_detections [mk_detection 0 1 0.5 n1 i1, mk_detection 1.0001 2 0.6 n2 i2] 0
           = [mk_detection 0 1 0.5 n1 i1, mk_detection 1.0001 2 0.6 n2 i2]"
proof -
  define srt where "srt = sort_key start_time detections"
  have ne: "srt \<noteq> []" unfolding srt_def using assms(1) by (rule sort_key_nonempty)
  then obtain first rest where fr: "srt = first # rest" by (cases srt) auto
  have s1: "sorted (map start_time (first # rest))"
    unfolding fr[symmetric] srt_def by simp
  have s2: "mset (first # rest) = mset detections"
    unfolding fr[symmetric] srt_def by simp
  have s3: "filter (\<lambda>e. start_time e = k) (first # rest)
              = filter (\<lambda>e. start_time e = k) detections" for k
    unfolding fr[symmetric] srt_def by (rule sort_key_stable)
  have s4: "merge_detections detections merge_gap = spec_scan merge_gap first rest"
    using merge_detections_scan[OF assms(1), of merge_gap] fr by (simp add: srt_def)
  have st: "set (first # rest) = set detections"
    unfolding fr[symmetric] srt_def by simp
  have s5: "merge_detections detections merge_gap =
                 [first\<lparr>end_time := Max (end_time ` set detections),
                         confidence := Max (confidence ` set detections)\<rparr>]"
    if "spec_chain_within merge_gap (end_time first) rest"
    unfolding s4 chain_single_episode[OF that] st ..
  have general: "\<exists>first rest.
            first # rest = sort_key start_time detections \<and>
            sorted (map start_time (first # rest)) \<and>
            mset (first # rest) = mset detections \<and>
            (\<forall>k. filter (\<lambda>e. start_time e = k) (first # rest)
                   = filter (\<lambda>e. start_time e = k) detections) \<and>
            merge_detections detections merge_gap = spec_scan merge_gap first rest \<and>
            (spec_chain_within merge_gap (end_time first) rest \<longrightarrow>
               merge_detections detections merge_gap =
                 [first\<lparr>end_time := Max (end_time ` set detections),
                         confidence := Max (confidence ` set detections)\<rparr>])"
    using fr s1 s2 s3 s4 s5 unfolding srt_def by metis
  have a: "merge_detections
            [mk_detection 0 1 0.5 n1 i1, mk_detection 0.5 1.5 0.7 n2 i2,
             mk_detection 3 4 0.6 n3 i3] 1
           = [mk_detection 0 1.5 0.7 n1 i1, mk_detection 3 4 0.6 n3 i3]"
    by (simp add: merge_detections_def mk_detection_def)
  have d1: "merge_detections [mk_detection 0 1 0.5 n1 i1, mk_detection 1 2 0.6 n2 i2] 0
           = [mk_detection 0 2 0.6 n1 i1]"
    by (simp add: merge_detections_def mk_detection_def)
  have d2: "merge_detections [mk_detection 0 1 0.5 n1 i1, mk_detection 1.0001 2 0.6 n2 i2] 0
           = [mk_detection 0 1 0.5 n1 i1, mk_detection 1.0001 2 0.6 n2 i2]"
    by (simp add: merge_detections_def mk_detection_def)
  show ?thesis using general a d1 d2 by (intro conjI)
qed

text \<open>
  The theorem at three events with \<open>merge_gap = 1\<close>: each is within the gap of the
  running end, the first and the last are two seconds apart, and one episode results.
\<close>

theorem merge_detections_algorithm_witness:
  "[mk_detection 0 1 0.5 (Some ''Bark'') (Some 70),
    mk_detection 1.25 2.25 0.7 (Some ''Dog'') (Some 69),
    mk_detection 3 4 0.6 (Some ''Howl'') (Some 72)] \<noteq> [] \<and> (0::real) \<le> 1 \<and>
   merge_detections
     [mk_detection 0 1 0.5 (Some ''Bark'') (Some 70),
      mk_detection 1.25 2.25 0.7 (Some ''Dog'') (Some 69),
      mk_detection 3 4 0.6 (Some ''Howl'') (Some 72)] 1
    = [mk_detection 0 4 0.7 (Some ''Bark'') (Some 70)]"
proof -
  let ?L = "[mk_detection 0 1 0.5 (Some ''Bark'') (Some 70),
      mk_detection 1.25 2.25 0.7 (Some ''Dog'') (Some 69),
      mk_detection 3 4 0.6 (Some ''Howl'') (Some 72)]"
  have h1: "?L \<noteq> []" by simp
  have h2: "(0::real) \<le> 1" by simp
  have srt: "sort_key start_time ?L = ?L" by (simp add: mk_detection_def)
  from merge_detections_algorithm[OF h1 h2]
  obtain first rest where
    fr: "first # rest = sort_key start_time ?L" and
    ch: "spec_chain_within 1 (end_time first) rest \<longrightarrow>
          merge_detections ?L 1 =
            [first\<lparr>end_time := Max (end_time ` set ?L), confidence := Max (confidence ` set ?L)\<rparr>]"
    by blast
  from fr srt have f: "first = mk_detection 0 1 0.5 (Some ''Bark'') (Some 70)"
    and r: "rest = [mk_detection 1.25 2.25 0.7 (Some ''Dog'') (Some 69),
      mk_detection 3 4 0.6 (Some ''Howl'') (Some 72)]" by simp_all
  have "spec_chain_within 1 (end_time first) rest"
    unfolding f r by (simp add: mk_detection_def)
  with ch have "merge_detections ?L 1 =
            [first\<lparr>end_time := Max (end_time ` set ?L), confidence := Max (confidence ` set ?L)\<rparr>]"
    by blast
  then have "merge_detections ?L 1 = [mk_detection 0 4 0.7 (Some ''Bark'') (Some 70)]"
    unfolding f by (simp add: mk_detection_def)
  then show ?thesis using h1 h2 by blast
qed

subsection \<open>C6: the merged list is ordered and separated\<close>

text \<open>
  Claim C6. For every input list and every \<open>merge_gap \<ge> 0\<close> the output of
  \<open>merge_detections\<close> is sorted by \<open>start_time\<close> ascending, no two consecutive episodes
  satisfy \<open>episode[i+1].start_time - episode[i].end_time \<le> merge_gap\<close>, and so any
  earlier episode ends more than \<open>merge_gap\<close> seconds before any later one starts: the
  episodes are pairwise non-overlapping.
\<close>

theorem merge_detections_monotone:
  assumes "0 \<le> merge_gap"
  shows "sorted (map start_time (merge_detections L merge_gap)) \<and>
     (\<forall>i. Suc i < length (merge_detections L merge_gap) \<longrightarrow>
        \<not> (start_time (merge_detections L merge_gap ! Suc i)
             - end_time (merge_detections L merge_gap ! i) \<le> merge_gap)) \<and>
     (\<forall>i j. i < j \<and> j < length (merge_detections L merge_gap) \<longrightarrow>
        end_time (merge_detections L merge_gap ! i) + merge_gap
          < start_time (merge_detections L merge_gap ! j) \<and>
        end_time (merge_detections L merge_gap ! i)
          < start_time (merge_detections L merge_gap ! j))"
proof -
  define out where "out = merge_detections L merge_gap"
  have srt: "sorted (map start_time out)"
    unfolding out_def by (rule merge_detections_sorted)
  have sep: "successively (\<lambda>a b. \<not> (start_time b - end_time a \<le> merge_gap)) out"
    unfolding out_def by (rule merge_detections_separated)
  have consecutive: "\<not> (start_time (out ! Suc i) - end_time (out ! i) \<le> merge_gap)"
    if "Suc i < length out" for i
    using sep that by (simp add: successively_conv_nth)
  have pairwise: "end_time (out ! i) + merge_gap < start_time (out ! j)"
    if "i < j" "j < length out" for i j
  proof -
    have "Suc i < length out" using that by simp
    then have a: "end_time (out ! i) + merge_gap < start_time (out ! Suc i)"
      using consecutive[of i] by simp
    have "start_time (out ! Suc i) \<le> start_time (out ! j)"
      using srt that by (simp add: sorted_iff_nth_mono)
    then show ?thesis using a by simp
  qed
  show ?thesis
    unfolding out_def[symmetric]
    using srt consecutive pairwise assms by fastforce
qed

text \<open>
  The theorem at scenario A, given in reverse order: the two episodes are 1.5 seconds
  apart, more than the gap of one second.
\<close>

theorem merge_detections_monotone_witness:
  "(0::real) \<le> 1 \<and>
   merge_detections
     [mk_detection 3 4 0.6 (Some ''Howl'') (Some 72),
      mk_detection 0.5 1.5 0.7 (Some ''Dog'') (Some 69),
      mk_detection 0 1 0.5 (Some ''Bark'') (Some 70)] 1
     = [mk_detection 0 1.5 0.7 (Some ''Bark'') (Some 70),
        mk_detection 3 4 0.6 (Some ''Howl'') (Some 72)] \<and>
   sorted (map start_time (merge_detections
     [mk_detection 3 4 0.6 (Some ''Howl'') (Some 72),
      mk_detection 0.5 1.5 0.7 (Some ''Dog'') (Some 69),
      mk_detection 0 1 0.5 (Some ''Bark'') (Some 70)] 1))"
proof -
  have h: "(0::real) \<le> 1" by simp
  have e: "merge_detections
     [mk_detection 3 4 0.6 (Some ''Howl'') (Some 72),
      mk_detection 0.5 1.5 0.7 (Some ''Dog'') (Some 69),
      mk_detection 0 1 0.5 (Some ''Bark'') (Some 70)] 1
     = [mk_detection 0 1.5 0.7 (Some ''Bark'') (Some 70),
        mk_detection 3 4 0.6 (Some ''Howl'') (Some 72)]"
    by (simp add: merge_detections_def mk_detection_def)
  show ?thesis
    using h e merge_detections_monotone[OF h, of
     "[mk_detection 3 4 0.6 (Some ''Howl'') (Some 72),
      mk_detection 0.5 1.5 0.7 (Some ''Dog'') (Some 69),
      mk_detection 0 1 0.5 (Some ''Bark'') (Some 70)]"]
    by blast
qed

subsection \<open>C7: merging is idempotent\<close>

text \<open>
  Claim C7. \<open>merge_detections\<close> is idempotent: for every event list \<open>L\<close> and every
  \<open>merge_gap\<close> \<open>g\<close> (so in particular for every \<open>g \<ge> 0\<close>), merging the merged list
  again with the same gap returns it unchanged; and the empty input list yields the
  empty output list.
\<close>

theorem merge_detections_idempotent:
  "merge_detections (merge_detections L g) g = merge_detections L g \<and>
   merge_detections [] g = []"
proof
  show "merge_detections (merge_detections L g) g = merge_detections L g"
    by (rule merge_detections_fixed[OF merge_detections_sorted merge_detections_separated])
  show "merge_detections [] g = []" by (simp add: merge_detections_def)
qed

theorem merge_detections_idempotent_witness:
  "merge_detections (merge_detections
     [mk_detection 0.5 1.5 0.7 (Some ''Dog'') (Some 69),
      mk_detection 0 1 0.5 (Some ''Bark'') (Some 70)] 1) 1
   = [mk_detection 0 1.5 0.7 (Some ''Bark'') (Some 70)]"
proof -
  have "merge_detections
     [mk_detection 0.5 1.5 0.7 (Some ''Dog'') (Some 69),
      mk_detection 0 1 0.5 (Some ''Bark'') (Some 70)] 1
     = [mk_detection 0 1.5 0.7 (Some ''Bark'') (Some 70)]"
    by (simp add: merge_detections_def mk_detection_def)
  then show ?thesis
    using merge_detections_idempotent[of
     "[mk_detection 0.5 1.5 0.7 (Some ''Dog'') (Some 69),
       mk_detection 0 1 0.5 (Some ''Bark'') (Some 70)]" 1]
    by simp
qed

subsection \<open>C8: a negative merge gap\<close>

text \<open>
  Claim C8 says that a negative \<open>merge_gap\<close> is rejected as a configuration error
  before any merging. \<open>merge_detections\<close> has no such check. With \<open>merge_gap = -1\<close> it
  returns a list: two events that overlap by half a second, which any gap \<open>\<ge> 0\<close>
  merges, are returned as two episodes, so the negative gap is applied silently.
\<close>

theorem merge_detections_negative_gap_counterexample:
  "merge_detections
     [mk_detection 0 1 0.5 (Some ''Bark'') (Some 70),
      mk_detection 0.5 1.5 0.7 (Some ''Dog'') (Some 69)] (- 1)
     = [mk_detection 0 1 0.5 (Some ''Bark'') (Some 70),
        mk_detection 0.5 1.5 0.7 (Some ''Dog'') (Some 69)] \<and>
   merge_detections
     [mk_detection 0 1 0.5 (Some ''Bark'') (Some 70),
      mk_detection 0.5 1.5 0.7 (Some ''Dog'') (Some 69)] 0
     = [mk_detection 0 1.5 0.7 (Some ''Bark'') (Some 70)]"
  by (simp add: merge_detections_def mk_detection_def)

text \<open>
  Claim C8, amended. For every \<open>merge_gap < 0\<close> the merger does not reject the call: it
  returns the result of the same sort and scan with the negative gap (an event is
  absorbed only if it starts at least \<open>|merge_gap|\<close> before the running end), so a
  list that is sorted by start time and whose events do not overlap (each starts no
  earlier than its predecessor ends) is returned unchanged.
\<close>

theorem merge_detections_negative_gap:
  assumes "merge_gap < 0"
  shows "merge_detections detections merge_gap =
           (if detections = [] then []
            else spec_scan merge_gap (hd (sort_key start_time detections))
                   (tl (sort_key start_time detections))) \<and>
         (sorted (map start_time detections) \<and>
          successively (\<lambda>a b. end_time a \<le> start_time b) detections \<longrightarrow>
            merge_detections detections merge_gap = detections)"
proof
  show "merge_detections detections merge_gap =
           (if detections = [] then []
            else spec_scan merge_gap (hd (sort_key start_time detections))
                   (tl (sort_key start_time detections)))"
    by (simp add: merge_detections_def merge_loop_scan Let_def)
  show "sorted (map start_time detections) \<and>
          successively (\<lambda>a b. end_time a \<le> start_time b) detections \<longrightarrow>
            merge_detections detections merge_gap = detections"
  proof
    assume a: "sorted (map start_time detections) \<and>
          successively (\<lambda>a b. end_time a \<le> start_time b) detections"
    have "successively (\<lambda>a b. \<not> (start_time b - end_time a \<le> merge_gap)) detections"
      by (rule successively_mono[of "\<lambda>a b. end_time a \<le> start_time b"])
         (use a assms in auto)
    then show "merge_detections detections merge_gap = detections"
      using a by (simp add: merge_detections_fixed)
  qed
qed

text \<open>
  The amended statement at \<open>merge_gap = -1\<close> and two events that touch at time 1.
\<close>

theorem merge_detections_negative_gap_witness:
  "(- 1::real) < 0 \<and>
   merge_detections
     [mk_detection 0 1 0.5 (Some ''Bark'') (Some 70),
      mk_detection 1 2 0.6 (Some ''Dog'') (Some 69)] (- 1)
     = [mk_detection 0 1 0.5 (Some ''Bark'') (Some 70),
        mk_detection 1 2 0.6 (Some ''Dog'') (Some 69)]"
proof -
  have h: "(- 1::real) < 0" by simp
  have p: "sorted (map start_time
     [mk_detection 0 1 0.5 (Some ''Bark'') (Some 70),
      mk_detection 1 2 0.6 (Some ''Dog'') (Some 69)]) \<and>
    successively (\<lambda>a b. end_time a \<le> start_time b)
     [mk_detection 0 1 0.5 (Some ''Bark'') (Some 70),
      mk_detection 1 2 0.6 (Some ''Dog'') (Some 69)]"
    by (simp add: mk_detection_def)
  show ?thesis
    using h p merge_detections_negative_gap[OF h, of
     "[mk_detection 0 1 0.5 (Some ''Bark'') (Some 70),
       mk_detection 1 2 0.6 (Some ''Dog'') (Some 69)]"]
    by blast
qed

section \<open>Properties of the chunk scheduler\<close>

text \<open>
  With a positive step \<open>s = C - O\<close>, the chunk of index \<open>k\<close> starts before the end of
  the recording exactly when \<open>k\<close> is below \<open>\<lceil>D / s\<rceil>\<close>.
\<close>

lemma chunk_index_bound:
  assumes "0 < s"
  shows "(real k * s < D) = (k < nat \<lceil>D / s\<rceil>)"
proof -
  have "(real k * s < D) = (real k < D / s)"
    using assms by (simp add: pos_less_divide_eq)
  also have "\<dots> = (int k < \<lceil>D / s\<rceil>)"
    by (simp add: less_ceiling_iff)
  also have "\<dots> = (k < nat \<lceil>D / s\<rceil>)"
    by linarith
  finally show ?thesis .
qed

lemma process_in_chunks_loop_spec:
  assumes "real i * (C - ov) < D"
  shows "process_in_chunks_loop load_audio D C (real i * (C - ov))
           = Yield (spec_chunk load_audio D C ov i) (Suspended (real i * (C - ov)))"
proof -
  have "real i * (C - ov) + min C (D - real i * (C - ov)) = min (real i * (C - ov) + C) D"
    by (simp add: min_def)
  moreover have "min C (D - real i * (C - ov))
      = min (real i * (C - ov) + C) D - real i * (C - ov)"
    by (simp add: min_def)
  ultimately show ?thesis
    using assms by (simp add: process_in_chunks_loop_def spec_chunk_def Let_def)
qed

lemma process_in_chunks_from_suspended:
  assumes s: "ov < C"
  shows "real k * (C - ov) < D \<Longrightarrow> nat \<lceil>D / (C - ov)\<rceil> - Suc k = j \<Longrightarrow>
         process_in_chunks load_audio D C ov (Suspended (real k * (C - ov)))
           = Some (map (spec_chunk load_audio D C ov) [Suc k ..< nat \<lceil>D / (C - ov)\<rceil>])"
proof (induction j arbitrary: k)
  case 0
  have pos: "0 < C - ov" using s by simp
  have "\<not> Suc k < nat \<lceil>D / (C - ov)\<rceil>" using "0.prems"(2) by arith
  then have stop: "D \<le> real (Suc k) * (C - ov)"
    using chunk_index_bound[OF pos, of "Suc k" D] by simp
  have off: "real k * (C - ov) + (C - ov) = real (Suc k) * (C - ov)"
    by (simp add: algebra_simps)
  have "process_in_chunks_next load_audio D C ov (Suspended (real k * (C - ov))) = StopIteration"
    unfolding process_in_chunks_next_def gen_state.case Let_def off using stop by simp
  moreover have "[Suc k ..< nat \<lceil>D / (C - ov)\<rceil>] = []" using 0 by simp
  ultimately show ?case by (simp add: process_in_chunks.simps)
next
  case (Suc j)
  have pos: "0 < C - ov" using s by simp
  have lt: "Suc k < nat \<lceil>D / (C - ov)\<rceil>" using Suc.prems by simp
  then have go: "real (Suc k) * (C - ov) < D"
    using chunk_index_bound[OF pos, of "Suc k" D] by simp
  have off: "real k * (C - ov) + (C - ov) = real (Suc k) * (C - ov)"
    by (simp add: algebra_simps)
  have n: "process_in_chunks_next load_audio D C ov (Suspended (real k * (C - ov)))
      = Yield (spec_chunk load_audio D C ov (Suc k)) (Suspended (real (Suc k) * (C - ov)))"
    unfolding process_in_chunks_next_def gen_state.case Let_def off
    using go process_in_chunks_loop_spec[OF go, of load_audio] by simp
  have rest: "process_in_chunks load_audio D C ov (Suspended (real (Suc k) * (C - ov)))
           = Some (map (spec_chunk load_audio D C ov) [Suc (Suc k) ..< nat \<lceil>D / (C - ov)\<rceil>])"
    using Suc.IH[OF go] Suc.prems by simp
  have u: "[Suc k ..< nat \<lceil>D / (C - ov)\<rceil>] = Suc k # [Suc (Suc k) ..< nat \<lceil>D / (C - ov)\<rceil>]"
    using lt by (simp add: upt_conv_Cons)
  have "process_in_chunks load_audio D C ov (Suspended (real k * (C - ov)))
      = Option.bind (process_in_chunks load_audio D C ov (Suspended (real (Suc k) * (C - ov))))
          (\<lambda>chunks. Some (spec_chunk load_audio D C ov (Suc k) # chunks))"
    by (subst process_in_chunks.simps) (simp only: n gen_result.case)
  also have "\<dots> = Some (spec_chunk load_audio D C ov (Suc k) #
       map (spec_chunk load_audio D C ov) [Suc (Suc k) ..< nat \<lceil>D / (C - ov)\<rceil>])"
    by (simp only: rest Option.bind.simps)
  finally show ?case by (simp only: u list.map)
qed

lemma process_in_chunks_spec:
  assumes s: "ov < C"
  shows "process_in_chunks load_audio D C ov NotStarted = Some (spec_chunks load_audio D C ov)"
proof (cases "0 < D")
  case True
  have pos: "0 < C - ov" using s by simp
  have z: "real (0::nat) * (C - ov) < D" using True by simp
  then have lt: "0 < nat \<lceil>D / (C - ov)\<rceil>"
    using chunk_index_bound[OF pos, of 0 D] by simp
  have n: "process_in_chunks_next load_audio D C ov NotStarted
      = Yield (spec_chunk load_audio D C ov 0) (Suspended 0)"
    unfolding process_in_chunks_next_def gen_state.case using process_in_chunks_loop_spec[OF z, of load_audio] by simp
  have rest: "process_in_chunks load_audio D C ov (Suspended 0)
           = Some (map (spec_chunk load_audio D C ov) [Suc 0 ..< nat \<lceil>D / (C - ov)\<rceil>])"
    using process_in_chunks_from_suspended[OF s z refl, of load_audio] by simp
  have "[0 ..< nat \<lceil>D / (C - ov)\<rceil>] = 0 # [Suc 0 ..< nat \<lceil>D / (C - ov)\<rceil>]"
    using lt by (simp add: upt_conv_Cons)
  then show ?thesis
    unfolding spec_chunks_def
    by (subst process_in_chunks.simps) (simp add: n rest)
next
  case False
  have pos: "0 < C - ov" using s by simp
  have "\<not> real (0::nat) * (C - ov) < D" using False by simp
  then have "nat \<lceil>D / (C - ov)\<rceil> = 0"
    using chunk_index_bound[OF pos, of 0 D] by simp
  moreover have "process_in_chunks_next load_audio D C ov NotStarted = StopIteration"
    using False by (simp add: process_in_chunks_next_def process_in_chunks_loop_def)
  ultimately show ?thesis
    by (simp add: process_in_chunks.simps spec_chunks_def)
qed


lemma spec_chunks_length: "length (spec_chunks load_audio D C ov) = nat \<lceil>D / (C - ov)\<rceil>"
  by (simp add: spec_chunks_def)

lemma spec_chunks_nth:
  "i < nat \<lceil>D / (C - ov)\<rceil> \<Longrightarrow>
   spec_chunks load_audio D C ov ! i = spec_chunk load_audio D C ov i"
  by (simp add: spec_chunks_def)

lemma spec_chunk_fields:
  "chunk_start (spec_chunk load_audio D C ov i) = real i * (C - ov)"
  "chunk_end (spec_chunk load_audio D C ov i) = min (real i * (C - ov) + C) D"
  "chunk_audio (spec_chunk load_audio D C ov i)
     = load_audio (min (real i * (C - ov) + C) D - real i * (C - ov)) (real i * (C - ov))"
  by (simp_all add: spec_chunk_def chunk_start_def chunk_end_def chunk_audio_def Let_def)

lemma spec_chunks_cover:
  assumes "0 \<le> ov" and "ov < C"
  shows "(\<exists>i < nat \<lceil>D / (C - ov)\<rceil>. real i * (C - ov) \<le> t \<and> t < min (real i * (C - ov) + C) D)
           = (0 \<le> t \<and> t < D)"
proof
  assume "\<exists>i < nat \<lceil>D / (C - ov)\<rceil>. real i * (C - ov) \<le> t \<and> t < min (real i * (C - ov) + C) D"
  then obtain i where i: "real i * (C - ov) \<le> t" "t < min (real i * (C - ov) + C) D" by blast
  have "0 \<le> real i * (C - ov)" using assms by simp
  then show "0 \<le> t \<and> t < D" using i by simp
next
  assume t: "0 \<le> t \<and> t < D"
  define s where "s = C - ov"
  have pos: "0 < s" using assms by (simp add: s_def)
  define i where "i = nat \<lfloor>t / s\<rfloor>"
  have nn: "0 \<le> t / s" using t pos by simp
  then have ri: "real i = of_int \<lfloor>t / s\<rfloor>" by (simp add: i_def)
  have "real i \<le> t / s" unfolding ri by (rule of_int_floor_le)
  then have lo: "real i * s \<le> t" using pos by (simp add: pos_le_divide_eq)
  have "t / s < real i + 1" unfolding ri by linarith
  then have "t < (real i + 1) * s" using pos by (simp add: pos_divide_less_eq)
  then have "t < real i * s + s" by (simp add: algebra_simps)
  moreover have "s \<le> C" using assms by (simp add: s_def)
  ultimately have hi: "t < real i * s + C" by linarith
  have "real i * s < D" using lo t by linarith
  then have "i < nat \<lceil>D / s\<rceil>" using chunk_index_bound[OF pos, of i D] by simp
  then show "\<exists>i < nat \<lceil>D / (C - ov)\<rceil>. real i * (C - ov) \<le> t \<and> t < min (real i * (C - ov) + C) D"
    using lo hi t unfolding s_def by auto
qed

lemma spec_chunks_last:
  assumes "0 \<le> ov" and "ov < C" and "0 < nat \<lceil>D / (C - ov)\<rceil>"
  shows "min (real (nat \<lceil>D / (C - ov)\<rceil> - 1) * (C - ov) + C) D = D"
    and "D \<le> real (nat \<lceil>D / (C - ov)\<rceil> - 1) * (C - ov) + (C - ov)"
proof -
  have pos: "0 < C - ov" using assms by simp
  obtain m where m: "nat \<lceil>D / (C - ov)\<rceil> = Suc m"
    using assms(3) by (cases "nat \<lceil>D / (C - ov)\<rceil>") auto
  have "\<not> Suc m < nat \<lceil>D / (C - ov)\<rceil>" unfolding m by simp
  then have "D \<le> real (Suc m) * (C - ov)"
    using chunk_index_bound[OF pos, of "Suc m" D] by simp
  then have a: "D \<le> real m * (C - ov) + (C - ov)" by (simp add: algebra_simps)
  have m1: "nat \<lceil>D / (C - ov)\<rceil> - 1 = m" unfolding m by simp
  show "D \<le> real (nat \<lceil>D / (C - ov)\<rceil> - 1) * (C - ov) + (C - ov)"
    unfolding m1 by (rule a)
  have "D \<le> real m * (C - ov) + C" using a assms(1) by linarith
  then show "min (real (nat \<lceil>D / (C - ov)\<rceil> - 1) * (C - ov) + C) D = D"
    unfolding m1 by (simp add: min_def)
qed

subsection \<open>C2: the chunks cover the recording\<close>

text \<open>
  Claim C2. For every recording duration \<open>D \<ge> 0\<close>, chunk duration \<open>C > 0\<close> and overlap
  \<open>O\<close> with \<open>0 \<le> O < C\<close>, the generator terminates and yields chunks whose start
  offsets are \<open>0, C - O, 2 (C - O), \<dots>\<close> (chunk \<open>i + 1\<close> starts at the start of chunk
  \<open>i\<close> plus \<open>C - O\<close>); every chunk starts before \<open>D\<close>, spans \<open>C\<close> seconds cut off at
  \<open>D\<close>, and carries the buffer read at its offset; a time \<open>t\<close> lies in some chunk
  exactly when \<open>0 \<le> t < D\<close>, and each chunk starts no later than its predecessor ends,
  so the intervals cover \<open>[0, D)\<close> exactly and without gaps; the last chunk ends exactly
  at \<open>D\<close>, and the sequence stops there because the next start would be \<open>\<ge> D\<close>. For
  \<open>D = 125\<close>, \<open>C = 60\<close>, \<open>O = 2\<close> the chunks are \<open>[0, 60)\<close>, \<open>[58, 118)\<close> and
  \<open>[116, 125)\<close>.
\<close>

theorem process_in_chunks_covers:
  assumes "0 \<le> D" and "0 < C" and "0 \<le> ov" and "ov < C"
  shows "(\<exists>chunks.
      process_in_chunks load_audio D C ov NotStarted = Some chunks \<and>
      length chunks = nat \<lceil>D / (C - ov)\<rceil> \<and>
      (\<forall>i < length chunks. chunk_start (chunks ! i) = real i * (C - ov)) \<and>
      (\<forall>i. Suc i < length chunks \<longrightarrow>
         chunk_start (chunks ! Suc i) = chunk_start (chunks ! i) + C - ov) \<and>
      (\<forall>i < length chunks.
         chunk_start (chunks ! i) < D \<and>
         chunk_end (chunks ! i) = min (chunk_start (chunks ! i) + C) D \<and>
         chunk_audio (chunks ! i)
           = load_audio (chunk_end (chunks ! i) - chunk_start (chunks ! i))
               (chunk_start (chunks ! i))) \<and>
      (\<forall>t. (\<exists>i < length chunks. chunk_start (chunks ! i) \<le> t \<and> t < chunk_end (chunks ! i))
             = (0 \<le> t \<and> t < D)) \<and>
      (\<forall>i. Suc i < length chunks \<longrightarrow> chunk_start (chunks ! Suc i) \<le> chunk_end (chunks ! i)) \<and>
      (0 < D \<longrightarrow> chunks \<noteq> []) \<and>
      (chunks \<noteq> [] \<longrightarrow>
         chunk_end (last chunks) = D \<and> D \<le> chunk_start (last chunks) + (C - ov)))
    \<and> process_in_chunks load_audio 125 60 2 NotStarted
        = Some [(load_audio 60 0, 0, 60), (load_audio 60 58, 58, 118),
                (load_audio 9 116, 116, 125)]"
proof -
  define n where "n = nat \<lceil>D / (C - ov)\<rceil>"
  define chunks where "chunks = spec_chunks load_audio D C ov"
  have pos: "0 < C - ov" using assms by simp
  have run: "process_in_chunks load_audio D C ov NotStarted = Some chunks"
    unfolding chunks_def using assms(4) by (rule process_in_chunks_spec)
  have len: "length chunks = n"
    by (simp add: chunks_def n_def spec_chunks_length)
  have nth: "chunks ! i = spec_chunk load_audio D C ov i" if "i < n" for i
    using that by (simp add: chunks_def n_def spec_chunks_nth)
  have below: "real i * (C - ov) < D" if "i < n" for i
    using that chunk_index_bound[OF pos, of i D] by (simp add: n_def)
  have starts: "\<forall>i < length chunks. chunk_start (chunks ! i) = real i * (C - ov)"
    by (simp add: len nth spec_chunk_fields)
  have steps: "\<forall>i. Suc i < length chunks \<longrightarrow>
         chunk_start (chunks ! Suc i) = chunk_start (chunks ! i) + C - ov"
    by (simp add: len nth spec_chunk_fields algebra_simps)
  have shape: "\<forall>i < length chunks.
         chunk_start (chunks ! i) < D \<and>
         chunk_end (chunks ! i) = min (chunk_start (chunks ! i) + C) D \<and>
         chunk_audio (chunks ! i)
           = load_audio (chunk_end (chunks ! i) - chunk_start (chunks ! i))
               (chunk_start (chunks ! i))"
    by (simp add: len nth spec_chunk_fields below)
  have cover: "(\<exists>i < length chunks. chunk_start (chunks ! i) \<le> t \<and> t < chunk_end (chunks ! i))
             = (0 \<le> t \<and> t < D)" for t
  proof -
    have "(\<exists>i < length chunks. chunk_start (chunks ! i) \<le> t \<and> t < chunk_end (chunks ! i))
        = (\<exists>i < n. real i * (C - ov) \<le> t \<and> t < min (real i * (C - ov) + C) D)"
      by (auto simp: len nth spec_chunk_fields)
    then show ?thesis
      using spec_chunks_cover[OF assms(3) assms(4), of D t] by (simp add: n_def)
  qed
  have nogap: "chunk_start (chunks ! Suc i) \<le> chunk_end (chunks ! i)"
    if "Suc i < length chunks" for i
  proof -
    have i: "Suc i < n" "i < n" using that len by simp_all
    have a: "real (Suc i) * (C - ov) \<le> real i * (C - ov) + C"
      using assms by (simp add: algebra_simps)
    have b: "real (Suc i) * (C - ov) < D" using below[OF i(1)] .
    show ?thesis
      unfolding nth[OF i(1)] nth[OF i(2)] spec_chunk_fields using a b by simp
  qed
  have nonempty: "0 < D \<longrightarrow> chunks \<noteq> []"
  proof
    assume "0 < D"
    then have "0 < n" using chunk_index_bound[OF pos, of 0 D] by (simp add: n_def)
    then show "chunks \<noteq> []" using len by auto
  qed
  have final: "chunks \<noteq> [] \<longrightarrow>
         chunk_end (last chunks) = D \<and> D \<le> chunk_start (last chunks) + (C - ov)"
  proof
    assume ne: "chunks \<noteq> []"
    then have n0: "0 < n" using len by auto
    have l: "last chunks = spec_chunk load_audio D C ov (n - 1)"
      using ne len n0 by (simp add: last_conv_nth nth)
    show "chunk_end (last chunks) = D \<and> D \<le> chunk_start (last chunks) + (C - ov)"
      unfolding l spec_chunk_fields
      using spec_chunks_last[OF assms(3) assms(4), of D] n0 by (simp add: n_def)
  qed
  have scenario: "process_in_chunks load_audio 125 60 2 NotStarted
        = Some [(load_audio 60 0, 0, 60), (load_audio 60 58, 58, 118),
                (load_audio 9 116, 116, 125)]"
    by (simp add: process_in_chunks.simps process_in_chunks_next_def process_in_chunks_loop_def Let_def)
  have general: "\<exists>chunks.
      process_in_chunks load_audio D C ov NotStarted = Some chunks \<and>
      length chunks = nat \<lceil>D / (C - ov)\<rceil> \<and>
      (\<forall>i < length chunks. chunk_start (chunks ! i) = real i * (C - ov)) \<and>
      (\<forall>i. Suc i < length chunks \<longrightarrow>
         chunk_start (chunks ! Suc i) = chunk_start (chunks ! i) + C - ov) \<and>
      (\<forall>i < length chunks.
         chunk_start (chunks ! i) < D \<and>
         chunk_end (chunks ! i) = min (chunk_start (chunks ! i) + C) D \<and>
         chunk_audio (chunks ! i)
           = load_audio (chunk_end (chunks ! i) - chunk_start (chunks ! i))
               (chunk_start (chunks ! i))) \<and>
      (\<forall>t. (\<exists>i < length chunks. chunk_start (chunks ! i) \<le> t \<and> t < chunk_end (chunks ! i))
             = (0 \<le> t \<and> t < D)) \<and>
      (\<forall>i. Suc i < length chunks \<longrightarrow> chunk_start (chunks ! Suc i) \<le> chunk_end (chunks ! i)) \<and>
      (0 < D \<longrightarrow> chunks \<noteq> []) \<and>
      (chunks \<noteq> [] \<longrightarrow>
         chunk_end (last chunks) = D \<and> D \<le> chunk_start (last chunks) + (C - ov))"
    apply (rule exI[of _ chunks])
    apply (intro conjI)
    subgoal by (rule run)
    subgoal using len by (simp add: n_def)
    subgoal by (rule starts)
    subgoal by (rule steps)
    subgoal by (rule shape)
    subgoal using cover by blast
    subgoal using nogap by blast
    subgoal by (rule nonempty)
    subgoal by (rule final)
    done
  show ?thesis using general scenario by (rule conjI)
qed

text \<open>
  The theorem at scenario B, with a reader that returns the pair of the duration and the
  offset it was asked for.
\<close>

theorem process_in_chunks_covers_witness:
  "(0::real) \<le> 125 \<and> (0::real) < 60 \<and> (0::real) \<le> 2 \<and> (2::real) < 60 \<and>
   (\<exists>chunks. process_in_chunks (\<lambda>duration offset. (duration, offset)) 125 60 2 NotStarted
                = Some chunks \<and>
      length chunks = 3 \<and> chunk_end (last chunks) = 125)"
proof -
  have h1: "(0::real) \<le> 125" and h2: "(0::real) < 60"
    and h3: "(0::real) \<le> 2" and h4: "(2::real) < 60" by simp_all
  have c: "nat \<lceil>(125::real) / (60 - 2)\<rceil> = 3" by simp
  from process_in_chunks_covers[OF h1 h2 h3 h4, of "\<lambda>duration offset. (duration, offset)"]
  obtain chunks where
    r: "process_in_chunks (\<lambda>duration offset. (duration, offset)) 125 60 2 NotStarted = Some chunks"
    and l: "length chunks = nat \<lceil>(125::real) / (60 - 2)\<rceil>"
    and f: "chunks \<noteq> [] \<longrightarrow>
         chunk_end (last chunks) = 125 \<and> 125 \<le> chunk_start (last chunks) + (60 - 2)"
    by blast
  from l c have l3: "length chunks = 3" by simp
  then have "chunks \<noteq> []" by auto
  with f have "chunk_end (last chunks) = 125" by blast
  with r l3 h1 h2 h3 h4 show ?thesis by blast
qed

subsection \<open>C3: chunk duration and overlap are not validated\<close>






section \<open>Properties of the pipeline\<close>

lemma process_in_chunks_Nil:
  "process_in_chunks load_audio D C ov st = Some [] \<Longrightarrow>
   process_in_chunks_next load_audio D C ov st = StopIteration"
  by (subst (asm) process_in_chunks.simps)
     (auto split: gen_result.splits simp: bind_eq_Some_conv)

lemma process_in_chunks_Cons:
  "process_in_chunks load_audio D C ov st = Some (c # cs) \<Longrightarrow>
   \<exists>st'. process_in_chunks_next load_audio D C ov st = Yield c st' \<and>
         process_in_chunks load_audio D C ov st' = Some cs"
  by (subst (asm) process_in_chunks.simps)
     (auto split: gen_result.splits simp: bind_eq_Some_conv)

lemma chunk_loop_result:
  "process_in_chunks load_audio D C 2 st = Some chunks \<Longrightarrow>
   (\<forall>k < length chunks. detect_in_waveform det (chunk_audio (chunks ! k)) 16000 = Inr (local k)) \<Longrightarrow>
   chunk_loop load_audio D det C st acc =
     Some (Inr (acc @ concat (map (\<lambda>k. map (\<lambda>e. e\<lparr>start_time := start_time e + chunk_start (chunks ! k),
                                               end_time := end_time e + chunk_start (chunks ! k)\<rparr>)
                                       (local k)) [0 ..< length chunks])))"
proof (induction chunks arbitrary: st acc local)
  case Nil
  then have "process_in_chunks_next load_audio D C 2 st = StopIteration" by (simp add: process_in_chunks_Nil)
  then show ?case by (subst chunk_loop.simps) simp
next
  case (Cons c cs)
  from process_in_chunks_Cons[OF Cons.prems(1)] obtain st' where
    n: "process_in_chunks_next load_audio D C 2 st = Yield c st'" and
    r: "process_in_chunks load_audio D C 2 st' = Some cs" by blast
  have d0: "detect_in_waveform det (chunk_audio c) 16000 = Inr (local 0)"
    using Cons.prems(2) by auto
  have dr: "\<forall>k < length cs. detect_in_waveform det (chunk_audio (cs ! k)) 16000 = Inr (local (Suc k))"
    using Cons.prems(2) by auto
  obtain a s e where c: "c = (a, s, e)" by (cases c) auto
  have step: "chunk_loop load_audio D det C st acc
      = chunk_loop load_audio D det C st'
          (acc @ map (\<lambda>e. e\<lparr>start_time := start_time e + s, end_time := end_time e + s\<rparr>) (local 0))"
    using d0 by (subst chunk_loop.simps) (simp add: n c chunk_audio_def)
  have idx: "[0 ..< length (c # cs)] = 0 # map Suc [0 ..< length cs]"
    by (simp add: upt_conv_Cons map_Suc_upt del: upt_Suc)
  show ?case
    unfolding step Cons.IH[OF r dr] idx
    by (simp add: c chunk_start_def comp_def)
qed

subsection \<open>C9: global timestamps\<close>

text \<open>
  Claim C9. The pipeline calls the scheduler with overlap 2, so the scheduler terminates
  for every \<open>chunk_size > 2\<close>. If the detector returns the events \<open>local k\<close> for the
  buffer of chunk \<open>k\<close>, the loop returns the accumulated list \<open>all\<close>, which is, chunk
  after chunk and in order, every event of \<open>local k\<close> with the start of chunk \<open>k\<close>
  added once to its \<open>start_time\<close> and once to its \<open>end_time\<close>, and nothing else. So an
  event with chunk-local times \<open>t\<close> and \<open>u\<close> extracted from chunk \<open>k\<close> is in the global
  list with \<open>start_time = chunk_start k + t\<close> and \<open>end_time = chunk_start k + u\<close>, its
  other fields unchanged.
\<close>

theorem global_timestamps:
  assumes "2 < chunk_size"
  shows "\<exists>chunks.
     process_in_chunks load_audio D chunk_size 2 NotStarted = Some chunks \<and>
     (\<forall>local.
        (\<forall>k < length chunks.
           detect_in_waveform det (chunk_audio (chunks ! k)) 16000 = Inr (local k)) \<longrightarrow>
        (\<exists>all.
           chunk_loop load_audio D det chunk_size NotStarted [] = Some (Inr all) \<and>
           all = concat (map (\<lambda>k. map (\<lambda>e. e\<lparr>start_time := start_time e + chunk_start (chunks ! k),
                                                end_time := end_time e + chunk_start (chunks ! k)\<rparr>)
                                     (local k)) [0 ..< length chunks]) \<and>
           (\<forall>k < length chunks. \<forall>j < length (local k). \<exists>m < length all.
              all ! m = (local k ! j)
                \<lparr>start_time := chunk_start (chunks ! k) + start_time (local k ! j),
                 end_time := chunk_start (chunks ! k) + end_time (local k ! j)\<rparr>)))"
proof -
  define chunks where "chunks = spec_chunks load_audio D chunk_size 2"
  have run: "process_in_chunks load_audio D chunk_size 2 NotStarted = Some chunks"
    unfolding chunks_def using assms by (rule process_in_chunks_spec)
  have main: "\<exists>all.
           chunk_loop load_audio D det chunk_size NotStarted [] = Some (Inr all) \<and>
           all = concat (map (\<lambda>k. map (\<lambda>e. e\<lparr>start_time := start_time e + chunk_start (chunks ! k),
                                                end_time := end_time e + chunk_start (chunks ! k)\<rparr>)
                                     (local k)) [0 ..< length chunks]) \<and>
           (\<forall>k < length chunks. \<forall>j < length (local k). \<exists>m < length all.
              all ! m = (local k ! j)
                \<lparr>start_time := chunk_start (chunks ! k) + start_time (local k ! j),
                 end_time := chunk_start (chunks ! k) + end_time (local k ! j)\<rparr>)"
    if ok: "\<forall>k < length chunks.
           detect_in_waveform det (chunk_audio (chunks ! k)) 16000 = Inr (local k)"
    for local
  proof -
    define all where "all = concat (map (\<lambda>k. map (\<lambda>e. e\<lparr>start_time := start_time e + chunk_start (chunks ! k),
                                                end_time := end_time e + chunk_start (chunks ! k)\<rparr>)
                                     (local k)) [0 ..< length chunks])"
    have loop: "chunk_loop load_audio D det chunk_size NotStarted [] = Some (Inr all)"
      using chunk_loop_result[OF run ok, of "[]"] by (simp add: all_def)
    have each: "\<exists>m < length all.
              all ! m = (local k ! j)
                \<lparr>start_time := chunk_start (chunks ! k) + start_time (local k ! j),
                 end_time := chunk_start (chunks ! k) + end_time (local k ! j)\<rparr>"
      if k: "k < length chunks" and j: "j < length (local k)" for k j
    proof -
      have "(local k ! j)
                \<lparr>start_time := start_time (local k ! j) + chunk_start (chunks ! k),
                 end_time := end_time (local k ! j) + chunk_start (chunks ! k)\<rparr> \<in> set all"
      proof -
        have "(local k ! j)
                \<lparr>start_time := start_time (local k ! j) + chunk_start (chunks ! k),
                 end_time := end_time (local k ! j) + chunk_start (chunks ! k)\<rparr>
              \<in> (\<lambda>e. e\<lparr>start_time := start_time e + chunk_start (chunks ! k),
                          end_time := end_time e + chunk_start (chunks ! k)\<rparr>) ` set (local k)"
          using j by (intro image_eqI[where x = "local k ! j"]) simp_all
        then show ?thesis unfolding all_def using k by auto
      qed
      then show ?thesis by (simp add: in_set_conv_nth add.commute)
    qed
    show ?thesis using loop each all_def by blast
  qed
  show ?thesis using run main by blast
qed

text \<open>
  The theorem on a recording of 125 seconds in chunks of 60: the detector finds one
  event in the first frame of the chunk that starts at 58, and the event is reported at
  58 seconds.
\<close>

theorem global_timestamps_witness:
  "(2::real) < 60 \<and>
   chunk_loop (\<lambda>duration offset. (duration, offset)) 125
     \<lparr>confidence_threshold = 0.3,
      model = (\<lambda>buf. if snd buf = 58 then [[0.9]] else []),
      class_names = [''Bark''], dog_class_indices = [0]\<rparr> 60 NotStarted []
   = Some (Inr [mk_detection 58 58.96 0.9 (Some ''Bark'') (Some 0)])"
proof -
  let ?load = "\<lambda>(duration::real) (offset::real). (duration, offset)"
  let ?det = "\<lparr>confidence_threshold = 0.3,
      model = (\<lambda>buf::real \<times> real. if snd buf = 58 then [[0.9::real]] else []),
      class_names = [''Bark''], dog_class_indices = [0]\<rparr>"
  let ?local = "\<lambda>k::nat. if k = 1 then [mk_detection 0 0.96 0.9 (Some ''Bark'') (Some 0)] else []"
  have h: "(2::real) < 60" by simp
  have c: "process_in_chunks ?load 125 60 2 NotStarted
             = Some [((60, 0), 0, 60), ((60, 58), 58, 118), ((9, 116), 116, 125)]"
    by (simp add: process_in_chunks.simps process_in_chunks_next_def process_in_chunks_loop_def Let_def)
  from global_timestamps[OF h, of ?load 125 ?det] obtain chunks where
    cc: "process_in_chunks ?load 125 60 2 NotStarted = Some chunks" and
    gg: "\<And>local. (\<forall>k < length chunks.
           detect_in_waveform ?det (chunk_audio (chunks ! k)) 16000 = Inr (local k)) \<Longrightarrow>
        chunk_loop ?load 125 ?det 60 NotStarted []
          = Some (Inr (concat (map (\<lambda>k. map (\<lambda>e. e\<lparr>start_time := start_time e + chunk_start (chunks ! k),
                                                end_time := end_time e + chunk_start (chunks ! k)\<rparr>)
                                     (local k)) [0 ..< length chunks])))"
    by blast
  have ch: "chunks = [((60, 0), 0, 60), ((60, 58), 58, 118), ((9, 116), 116, 125)]"
    using c cc by simp
  have d: "\<forall>k < length chunks.
           detect_in_waveform ?det (chunk_audio (chunks ! k)) 16000 = Inr (?local k)"
  proof (intro allI impI)
    fix k :: nat assume "k < length chunks"
    then have "k < 3" by (simp add: ch)
    then consider "k = 0" | "k = 1" | "k = 2" by linarith
    then show "detect_in_waveform ?det (chunk_audio (chunks ! k)) 16000 = Inr (?local k)"
      unfolding ch
      by cases
         (simp_all add: detect_in_waveform_def chunk_audio_def mk_detection_def
            hop_duration_def frame_duration_def)
  qed
  have u: "[0 ..< length chunks] = [0, 1, 2]" by (simp add: ch upt_conv_Cons)
  have "chunk_loop ?load 125 ?det 60 NotStarted []
       = Some (Inr [mk_detection 58 58.96 0.9 (Some ''Bark'') (Some 0)])"
    unfolding gg[of ?local, OF d] u
    by (simp add: ch chunk_start_def mk_detection_def)
  then show ?thesis using h by blast
qed

section \<open>Properties of the event extractor and of the summary\<close>

subsection \<open>The event extractor for a positive threshold\<close>

text \<open>
  The inner loop returns the larger of its initial score and the maximum score over the
  dog classes. When that is the initial score it returns the initial class; otherwise it
  returns the first dog class that has the maximum score.
\<close>

lemma best_dog_class_result:
  assumes "\<forall>c \<in> set indices. c < length frame_scores \<and> c < length names"
  shows "\<exists>m n i. best_dog_class names frame_scores indices (m0, n0, i0) = Inr (m, n, i) \<and>
           m = Max (insert m0 ((\<lambda>c. frame_scores ! c) ` set indices)) \<and>
           (if m = m0 then n = n0 \<and> i = i0
            else \<exists>c. find (\<lambda>c. frame_scores ! c = m) indices = Some c \<and>
                     n = Some (names ! c) \<and> i = Some c)"
  using assms
proof (induction indices arbitrary: m0 n0 i0)
  case Nil
  then show ?case by simp
next
  case (Cons c rest)
  have c_ok: "c < length frame_scores" "c < length names"
    and rest_ok: "\<forall>x \<in> set rest. x < length frame_scores \<and> x < length names"
    using Cons.prems by simp_all
  have fin: "finite ((\<lambda>c. frame_scores ! c) ` set rest)" by simp
  show ?case
  proof (cases "frame_scores ! c > m0")
    case True
    from Cons.IH[OF rest_ok, of "frame_scores ! c" "Some (names ! c)" "Some c"]
    obtain m n i where
      r: "best_dog_class names frame_scores rest (frame_scores ! c, Some (names ! c), Some c)
            = Inr (m, n, i)" and
      mx: "m = Max (insert (frame_scores ! c) ((\<lambda>c. frame_scores ! c) ` set rest))" and
      sel: "if m = frame_scores ! c then n = Some (names ! c) \<and> i = Some c
            else \<exists>x. find (\<lambda>x. frame_scores ! x = m) rest = Some x \<and>
                     n = Some (names ! x) \<and> i = Some x"
      by blast
    have run: "best_dog_class names frame_scores (c # rest) (m0, n0, i0) = Inr (m, n, i)"
      using True c_ok r by simp
    have ge: "frame_scores ! c \<le> m" unfolding mx using fin by simp
    have mx': "m = Max (insert m0 ((\<lambda>c. frame_scores ! c) ` set (c # rest)))"
    proof -
      have "Max (insert m0 ((\<lambda>c. frame_scores ! c) ` set (c # rest)))
          = max m0 (Max (insert (frame_scores ! c) ((\<lambda>c. frame_scores ! c) ` set rest)))"
        using fin by simp
      also have "\<dots> = max m0 m" by (simp only: mx[symmetric])
      also have "\<dots> = m" using True ge by simp
      finally show ?thesis by simp
    qed
    have ne: "m \<noteq> m0" using True ge by simp
    have "\<exists>x. find (\<lambda>x. frame_scores ! x = m) (c # rest) = Some x \<and>
                     n = Some (names ! x) \<and> i = Some x"
      using sel by (cases "m = frame_scores ! c") auto
    then show ?thesis using run mx' ne by auto
  next
    case False
    from Cons.IH[OF rest_ok, of m0 n0 i0]
    obtain m n i where
      r: "best_dog_class names frame_scores rest (m0, n0, i0) = Inr (m, n, i)" and
      mx: "m = Max (insert m0 ((\<lambda>c. frame_scores ! c) ` set rest))" and
      sel: "if m = m0 then n = n0 \<and> i = i0
            else \<exists>x. find (\<lambda>x. frame_scores ! x = m) rest = Some x \<and>
                     n = Some (names ! x) \<and> i = Some x"
      by blast
    have run: "best_dog_class names frame_scores (c # rest) (m0, n0, i0) = Inr (m, n, i)"
      using False c_ok r by simp
    have ge: "m0 \<le> m" unfolding mx using fin by simp
    have mx': "m = Max (insert m0 ((\<lambda>c. frame_scores ! c) ` set (c # rest)))"
    proof -
      have e: "insert m0 ((\<lambda>c. frame_scores ! c) ` set (c # rest))
          = insert (frame_scores ! c) (insert m0 ((\<lambda>c. frame_scores ! c) ` set rest))"
        by auto
      have "Max (insert m0 ((\<lambda>c. frame_scores ! c) ` set (c # rest)))
          = max (frame_scores ! c) (Max (insert m0 ((\<lambda>c. frame_scores ! c) ` set rest)))"
        unfolding e by (rule Max_insert) simp_all
      also have "\<dots> = max (frame_scores ! c) m" by (simp only: mx[symmetric])
      also have "\<dots> = m" using False ge by simp
      finally show ?thesis by simp
    qed
    have "\<exists>x. find (\<lambda>x. frame_scores ! x = m) (c # rest) = Some x \<and>
                     n = Some (names ! x) \<and> i = Some x" if "m \<noteq> m0"
    proof -
      have "frame_scores ! c \<noteq> m" using False ge that by simp
      then show ?thesis using sel that by simp
    qed
    then show ?thesis using run mx' sel by auto
  qed
qed


text \<open>
  With a positive threshold a score that reaches the threshold is above the initial 0,
  so a class has been selected: the extractor returns exactly the events of the
  specification, provided every dog class index is within each score vector and within
  the class names (no \<^verbatim>\<open>IndexError\<close>).
\<close>

lemma frame_loop_spec:
  assumes "0 < confidence_threshold det"
    and "\<forall>frame_scores \<in> set frames. \<forall>c \<in> set (dog_class_indices det).
           c < length frame_scores \<and> c < length (class_names det)"
  shows "frame_loop det k frames acc =
           Inr (acc @ List.map_filter (\<lambda>(i, frame_scores). spec_frame_event det i frame_scores)
                        (enumerate k frames))"
  using assms(2)
proof (induction frames arbitrary: k acc)
  case Nil
  then show ?case by (simp add: List.map_filter_simps)
next
  case (Cons f frames)
  have f_ok: "\<forall>c \<in> set (dog_class_indices det). c < length f \<and> c < length (class_names det)"
    and rest_ok: "\<forall>frame_scores \<in> set frames. \<forall>c \<in> set (dog_class_indices det).
           c < length frame_scores \<and> c < length (class_names det)"
    using Cons.prems by simp_all
  from best_dog_class_result[OF f_ok, of 0 None None] obtain m n i where
    r: "best_dog_class (class_names det) f (dog_class_indices det) (0, None, None) = Inr (m, n, i)" and
    mx: "m = Max (insert 0 ((\<lambda>c. f ! c) ` set (dog_class_indices det)))" and
    sel: "if m = 0 then n = None \<and> i = None
          else \<exists>c. find (\<lambda>c. f ! c = m) (dog_class_indices det) = Some c \<and>
                   n = Some (class_names det ! c) \<and> i = Some c"
    by blast
  have m_nonneg: "0 \<le> m" unfolding mx by simp
  show ?case
  proof (cases "confidence_threshold det \<le> m")
    case True
    then have pos: "0 < m" using assms(1) by simp
    then obtain c where c: "find (\<lambda>c. f ! c = m) (dog_class_indices det) = Some c"
      "n = Some (class_names det ! c)" "i = Some c"
      using sel by auto
    have ne: "dog_class_indices det \<noteq> []" using c(1) by auto
    have "m = max 0 (spec_max_dog_score f (dog_class_indices det))"
      unfolding mx spec_max_dog_score_def using ne by simp
    then have ms: "spec_max_dog_score f (dog_class_indices det) = m"
      using pos by (simp add: max_def split: if_splits)
    have ev: "spec_frame_event det k f =
        Some \<lparr>start_time = real k * hop_duration,
              end_time = real k * hop_duration + frame_duration,
              confidence = m, class_name = n, class_index = i\<rparr>"
      using True ne by (simp add: spec_frame_event_def ms c Let_def)
    show ?thesis
      using True r Cons.IH[OF rest_ok]
      by (simp add: ev List.map_filter_simps Let_def)
  next
    case False
    have "spec_frame_event det k f = None"
    proof (cases "dog_class_indices det = []")
      case True
      then show ?thesis by (simp add: spec_frame_event_def)
    next
      case ne: False
      have "m = max 0 (spec_max_dog_score f (dog_class_indices det))"
        unfolding mx spec_max_dog_score_def using ne by simp
      then have "spec_max_dog_score f (dog_class_indices det) \<le> m" by simp
      then show ?thesis using False by (simp add: spec_frame_event_def Let_def)
    qed
    then show ?thesis
      using False r Cons.IH[OF rest_ok]
      by (simp add: List.map_filter_simps)
  qed
qed

lemma detect_in_waveform_positive_threshold:
  assumes "0 < confidence_threshold det"
    and "\<forall>frame_scores \<in> set (model det waveform). \<forall>c \<in> set (dog_class_indices det).
           c < length frame_scores \<and> c < length (class_names det)"
  shows "detect_in_waveform det waveform 16000 = Inr (spec_events det (model det waveform))"
  using frame_loop_spec[OF assms, of 0 "[]"]
  by (simp add: detect_in_waveform_def spec_events_def)

subsection \<open>C4: one event per frame, labelled with the best dog class\<close>

text \<open>
  Claim C4 says that every frame whose maximum dog-class score reaches the threshold
  gives exactly one event, and that the event carries the label, the index and the score
  of the highest-scoring dog class. The inner loop starts from the score 0 with no class
  and replaces it only by a strictly larger score. The command line accepts a threshold
  of 0; with it, a frame whose dog-class scores are all 0 has maximum 0, which reaches
  the threshold, and the event is emitted with confidence 0 but with \<^verbatim>\<open>None\<close> as
  \<^verbatim>\<open>class_name\<close> and \<^verbatim>\<open>class_index\<close>, not with the dog class \<^verbatim>\<open>Bark\<close> of index 0.
\<close>

theorem detect_in_waveform_unlabelled_event:
  "detect_in_waveform
     \<lparr>confidence_threshold = 0, model = (\<lambda>waveform. [[0, 0.2]]),
      class_names = [''Bark'', ''Speech''], dog_class_indices = [0]\<rparr> () 16000
   = Inr [mk_detection 0 0.96 0 None None]"
  by (simp add: detect_in_waveform_def mk_detection_def hop_duration_def frame_duration_def)

subsection \<open>C5: the summary of the empty list\<close>

text \<open>
  Claim C5 says that the summary of the empty episode list holds all six fields of the
  contract, each zero. The dictionary returned for the empty list has five keys:
  \<^verbatim>\<open>avg_duration\<close> is missing, so reading it fails, while the summary of a non-empty
  list has it.
\<close>

theorem get_detection_summary_empty_keys:
  "get_detection_summary [] ''avg_duration'' = None \<and>
   dom (get_detection_summary [])
     = {''total_events'', ''total_duration'', ''avg_confidence'', ''max_confidence'',
        ''min_confidence''} \<and>
   get_detection_summary [mk_detection 0 1.5 0.7 (Some ''Bark'') (Some 70)] ''avg_duration''
     = Some (PyFloat 1.5)"
proof (intro conjI)
  show "get_detection_summary [] ''avg_duration'' = None"
    by (simp add: get_detection_summary_def)
  show "dom (get_detection_summary [])
     = {''total_events'', ''total_duration'', ''avg_confidence'', ''max_confidence'',
        ''min_confidence''}"
    by (auto simp: get_detection_summary_def)
  show "get_detection_summary [mk_detection 0 1.5 0.7 (Some ''Bark'') (Some 70)] ''avg_duration''
     = Some (PyFloat 1.5)"
    by (simp add: get_detection_summary_def mk_detection_def)
qed

section \<open>Properties of the event merger on the store\<close>

lemma map_sort_key:
  "map f (sort_key (\<lambda>a. k (f a)) xs) = sort_key k (map f xs)"
proof (induction xs)
  case Nil
  then show ?case by simp
next
  case (Cons x xs)
  have ins: "map f (insort_key (\<lambda>a. k (f a)) x ys) = insort_key k (f x) (map f ys)" for ys
    by (induction ys) simp_all
  show ?case using Cons by (simp add: ins)
qed


lemma dict_update_simps:
  "lists (dict_update h a f) = lists h"
  "length (dicts (dict_update h a f)) = length (dicts h)"
  "b \<noteq> a \<Longrightarrow> dicts (dict_update h a f) ! b = dicts h ! b"
  "a < length (dicts h) \<Longrightarrow> dicts (dict_update h a f) ! a = f (dicts h ! a)"
  by (simp_all add: dict_update_def)

lemma list_append_simps:
  "dicts (list_append h l a) = dicts h"
  "length (lists (list_append h l a)) = length (lists h)"
  "k \<noteq> l \<Longrightarrow> lists (list_append h l a) ! k = lists h ! k"
  "l < length (lists h) \<Longrightarrow> lists (list_append h l a) ! l = lists h ! l @ [a]"
  by (simp_all add: list_append_def)

lemma dict_copy_simps:
  "lists (fst (dict_copy h a)) = lists h"
  "dicts (fst (dict_copy h a)) = dicts h @ [dicts h ! a]"
  "snd (dict_copy h a) = length (dicts h)"
  by (simp_all add: dict_copy_def)

lemma new_list_simps:
  "dicts (fst (new_list h xs)) = dicts h"
  "lists (fst (new_list h xs)) = lists h @ [xs]"
  "snd (new_list h xs) = length (lists h)"
  by (simp_all add: new_list_def)

lemma merge_loop_heap_correct:
  assumes "\<forall>d \<in> set rest. d < current"
    and "current < length (dicts h)"
    and "merged < length (lists h)"
    and "\<forall>a \<in> set (lists h ! merged). a < current"
  shows "\<exists>h' current'.
      merge_loop_heap g merged rest h current = (h', current') \<and>
      current \<le> current' \<and> current' < length (dicts h') \<and>
      (\<forall>a < current. dicts h' ! a = dicts h ! a) \<and>
      length (lists h') = length (lists h) \<and>
      (\<forall>l. l \<noteq> merged \<longrightarrow> lists h' ! l = lists h ! l) \<and>
      (\<forall>a \<in> set (lists h' ! merged). a < current') \<and>
      (\<forall>a \<in> set (lists h' ! merged). a \<in> set (lists h ! merged) \<or> current \<le> a) \<and>
      map (\<lambda>a. dicts h' ! a) (lists h' ! merged) @ [dicts h' ! current']
        = merge_loop g (map (\<lambda>a. dicts h ! a) (lists h ! merged)) (dicts h ! current)
            (map (\<lambda>a. dicts h ! a) rest)"
  using assms
proof (induction rest arbitrary: h current)
  case Nil
  then show ?case by simp
next
  case (Cons d rest)
  have d_lt: "d < current" and rest_lt: "\<forall>x \<in> set rest. x < current"
    using Cons.prems(1) by simp_all
  show ?case
  proof (cases "start_time (dicts h ! d) - end_time (dicts h ! current) \<le> g")
    case True
    define h1 where "h1 = dict_update h current
        (\<lambda>x. x\<lparr>end_time := max (end_time (dicts h ! current)) (end_time (dicts h ! d))\<rparr>)"
    define h2 where "h2 = dict_update h1 current
        (\<lambda>x. x\<lparr>confidence := max (confidence (dicts h1 ! current)) (confidence (dicts h1 ! d))\<rparr>)"
    have run: "merge_loop_heap g merged (d # rest) h current = merge_loop_heap g merged rest h2 current"
      using True by (simp add: h1_def h2_def Let_def)
    have l2: "lists h2 = lists h" by (simp add: h2_def h1_def dict_update_simps)
    have len2: "length (dicts h2) = length (dicts h)"
      by (simp add: h2_def h1_def dict_update_simps)
    have other: "dicts h2 ! b = dicts h ! b" if "b \<noteq> current" for b
      using that by (simp add: h2_def h1_def dict_update_simps)
    have h1d: "dicts h1 ! d = dicts h ! d"
      using d_lt by (simp add: h1_def dict_update_simps)
    have h1c: "dicts h1 ! current
        = (dicts h ! current)\<lparr>end_time := max (end_time (dicts h ! current)) (end_time (dicts h ! d))\<rparr>"
      using Cons.prems(2) by (simp add: h1_def dict_update_simps)
    have cur2: "dicts h2 ! current
        = (dicts h ! current)\<lparr>end_time := max (end_time (dicts h ! current)) (end_time (dicts h ! d)),
             confidence := max (confidence (dicts h ! current)) (confidence (dicts h ! d))\<rparr>"
      using Cons.prems(2)
      by (simp add: h2_def dict_update_simps h1d h1c)
        (simp add: h1_def dict_update_simps)
    have p2: "current < length (dicts h2)" using Cons.prems(2) len2 by simp
    have p3: "merged < length (lists h2)" using Cons.prems(3) l2 by simp
    have p4: "\<forall>a \<in> set (lists h2 ! merged). a < current" using Cons.prems(4) l2 by simp
    from Cons.IH[OF rest_lt p2 p3 p4] obtain h' current' where
      r: "merge_loop_heap g merged rest h2 current = (h', current')" and
      i1: "current \<le> current'" "current' < length (dicts h')" and
      i2: "\<forall>a < current. dicts h' ! a = dicts h2 ! a" and
      i3: "length (lists h') = length (lists h2)" and
      i4: "\<forall>l. l \<noteq> merged \<longrightarrow> lists h' ! l = lists h2 ! l" and
      i5: "\<forall>a \<in> set (lists h' ! merged). a < current'" and
      i6: "\<forall>a \<in> set (lists h' ! merged). a \<in> set (lists h2 ! merged) \<or> current \<le> a" and
      i7: "map (\<lambda>a. dicts h' ! a) (lists h' ! merged) @ [dicts h' ! current']
        = merge_loop g (map (\<lambda>a. dicts h2 ! a) (lists h2 ! merged)) (dicts h2 ! current)
            (map (\<lambda>a. dicts h2 ! a) rest)"
      by blast
    have m_eq: "map (\<lambda>a. dicts h2 ! a) (lists h2 ! merged) = map (\<lambda>a. dicts h ! a) (lists h ! merged)"
      unfolding l2 using Cons.prems(4) by (intro map_cong refl other) auto
    have r_eq: "map (\<lambda>a. dicts h2 ! a) rest = map (\<lambda>a. dicts h ! a) rest"
      using rest_lt by (intro map_cong refl other) auto
    have pure: "merge_loop g (map (\<lambda>a. dicts h ! a) (lists h ! merged)) (dicts h ! current)
            (map (\<lambda>a. dicts h ! a) (d # rest))
        = merge_loop g (map (\<lambda>a. dicts h2 ! a) (lists h2 ! merged)) (dicts h2 ! current)
            (map (\<lambda>a. dicts h2 ! a) rest)"
      using True by (simp add: m_eq r_eq cur2)
    have f2: "\<forall>a < current. dicts h' ! a = dicts h ! a"
      using i2 other by simp
    show ?thesis
      unfolding run pure
      using r i1 f2 i3 i4 i5 i6 i7 unfolding l2 by blast
  next
    case False
    define h1 where "h1 = list_append h merged current"
    define h2 where "h2 = fst (dict_copy h1 d)"
    define c2 where "c2 = snd (dict_copy h1 d)"
    have run: "merge_loop_heap g merged (d # rest) h current = merge_loop_heap g merged rest h2 c2"
      using False by (simp add: h1_def h2_def c2_def Let_def case_prod_beta)
    have c2: "c2 = length (dicts h)"
      by (simp add: c2_def h1_def dict_copy_simps list_append_simps)
    have d2: "dicts h2 = dicts h @ [dicts h ! d]"
      by (simp add: h2_def h1_def dict_copy_simps list_append_simps)
    have len_l2: "length (lists h2) = length (lists h)"
      by (simp add: h2_def h1_def dict_copy_simps list_append_simps)
    have l2_other: "lists h2 ! l = lists h ! l" if "l \<noteq> merged" for l
      using that by (simp add: h2_def h1_def dict_copy_simps list_append_simps)
    have l2_merged: "lists h2 ! merged = lists h ! merged @ [current]"
      using Cons.prems(3) by (simp add: h2_def h1_def dict_copy_simps list_append_simps)
    have old: "dicts h2 ! b = dicts h ! b" if "b < length (dicts h)" for b
      using that by (simp add: d2 nth_append)
    have new: "dicts h2 ! c2 = dicts h ! d" by (simp add: d2 c2)
    have p1: "\<forall>x \<in> set rest. x < c2" using rest_lt Cons.prems(2) c2 by auto
    have p2: "c2 < length (dicts h2)" by (simp add: d2 c2)
    have p3: "merged < length (lists h2)" using Cons.prems(3) len_l2 by simp
    have p4: "\<forall>a \<in> set (lists h2 ! merged). a < c2"
      unfolding l2_merged using Cons.prems(2,4) c2 by auto
    from Cons.IH[OF p1 p2 p3 p4] obtain h' current' where
      r: "merge_loop_heap g merged rest h2 c2 = (h', current')" and
      i1: "c2 \<le> current'" "current' < length (dicts h')" and
      i2: "\<forall>a < c2. dicts h' ! a = dicts h2 ! a" and
      i3: "length (lists h') = length (lists h2)" and
      i4: "\<forall>l. l \<noteq> merged \<longrightarrow> lists h' ! l = lists h2 ! l" and
      i5: "\<forall>a \<in> set (lists h' ! merged). a < current'" and
      i6: "\<forall>a \<in> set (lists h' ! merged). a \<in> set (lists h2 ! merged) \<or> c2 \<le> a" and
      i7: "map (\<lambda>a. dicts h' ! a) (lists h' ! merged) @ [dicts h' ! current']
        = merge_loop g (map (\<lambda>a. dicts h2 ! a) (lists h2 ! merged)) (dicts h2 ! c2)
            (map (\<lambda>a. dicts h2 ! a) rest)"
      by blast
    have m_eq: "map (\<lambda>a. dicts h2 ! a) (lists h2 ! merged)
        = map (\<lambda>a. dicts h ! a) (lists h ! merged) @ [dicts h ! current]"
    proof -
      have "map (\<lambda>a. dicts h2 ! a) (lists h ! merged) = map (\<lambda>a. dicts h ! a) (lists h ! merged)"
        using Cons.prems(2,4) by (intro map_cong refl old) auto
      then show ?thesis unfolding l2_merged using Cons.prems(2) by (simp add: old)
    qed
    have r_eq: "map (\<lambda>a. dicts h2 ! a) rest = map (\<lambda>a. dicts h ! a) rest"
      using rest_lt Cons.prems(2) by (intro map_cong refl old) auto
    have pure: "merge_loop g (map (\<lambda>a. dicts h ! a) (lists h ! merged)) (dicts h ! current)
            (map (\<lambda>a. dicts h ! a) (d # rest))
        = merge_loop g (map (\<lambda>a. dicts h2 ! a) (lists h2 ! merged)) (dicts h2 ! c2)
            (map (\<lambda>a. dicts h2 ! a) rest)"
      using False by (simp add: m_eq r_eq new)
    have j1: "current \<le> current'" using i1(1) c2 Cons.prems(2) by simp
    have f2: "\<forall>a < current. dicts h' ! a = dicts h ! a"
    proof (intro allI impI)
      fix a assume a: "a < current"
      then have "a < c2" using c2 Cons.prems(2) by simp
      then have "dicts h' ! a = dicts h2 ! a" using i2 by simp
      also have "\<dots> = dicts h ! a" using a Cons.prems(2) by (simp add: old)
      finally show "dicts h' ! a = dicts h ! a" .
    qed
    have f3: "length (lists h') = length (lists h)" using i3 len_l2 by simp
    have f4: "\<forall>l. l \<noteq> merged \<longrightarrow> lists h' ! l = lists h ! l"
      using i4 l2_other by simp
    have f6: "\<forall>a \<in> set (lists h' ! merged). a \<in> set (lists h ! merged) \<or> current \<le> a"
    proof
      fix a assume "a \<in> set (lists h' ! merged)"
      then have "a \<in> set (lists h2 ! merged) \<or> c2 \<le> a" using i6 by blast
      then show "a \<in> set (lists h ! merged) \<or> current \<le> a"
        unfolding l2_merged using c2 Cons.prems(2) by auto
    qed
    show ?thesis
      unfolding run pure
      using r j1 i1(2) f2 f3 f4 i5 f6 i7 by blast
  qed
qed

subsection \<open>C10: the input is not mutated\<close>

text \<open>
  Claim C10. \<open>merge_detections\<close> does not mutate its input. On a store in which the
  input list and the dictionaries it holds are valid, every dictionary and every list
  that existed before the call is unchanged after it, in particular the input list and
  each event dictionary in it. The returned list is a new list, and the dictionaries it
  holds are new ones, the private copies that absorption writes to. Read from the final
  store, the returned list is the result of \<open>merge_detections\<close> on the events read from
  the initial store.
\<close>

theorem merge_detections_heap_frame:
  assumes "detections < length (lists h)"
    and "\<forall>a \<in> set (lists h ! detections). a < length (dicts h)"
  shows "\<exists>h' merged.
     merge_detections_heap h detections g = (h', merged) \<and>
     take (length (dicts h)) (dicts h') = dicts h \<and>
     take (length (lists h)) (lists h') = lists h \<and>
     lists h' ! detections = lists h ! detections \<and>
     (\<forall>a \<in> set (lists h ! detections). dicts h' ! a = dicts h ! a) \<and>
     length (lists h) \<le> merged \<and> merged < length (lists h') \<and>
     (\<forall>a \<in> set (lists h' ! merged). length (dicts h) \<le> a \<and> a < length (dicts h')) \<and>
     map (\<lambda>a. dicts h' ! a) (lists h' ! merged)
       = merge_detections (map (\<lambda>a. dicts h ! a) (lists h ! detections)) g"
proof (cases "lists h ! detections = []")
  case True
  have "merge_detections_heap h detections g
          = (h\<lparr>lists := lists h @ [[]]\<rparr>, length (lists h))"
    using True by (simp add: merge_detections_heap_def new_list_def)
  then show ?thesis
    using True assms(1) by (simp add: nth_append merge_detections_def)
next
  case False
  define inp where "inp = lists h ! detections"
  define n0 where "n0 = length (dicts h)"
  define l0 where "l0 = length (lists h)"
  define srt where "srt = sort_key (\<lambda>a. start_time (dicts h ! a)) inp"
  define h1 where "h1 = fst (new_list h srt)"
  define h2 where "h2 = fst (new_list h1 [])"
  define h3 where "h3 = fst (dict_copy h2 (hd srt))"
  define res where "res = merge_loop_heap g (Suc l0) (tl srt) h3 n0"
  have srt_ne: "srt \<noteq> []" using False by (simp add: srt_def inp_def sort_key_nonempty)
  have srt_set: "set srt = set inp" by (simp add: srt_def)
  have inp_lt: "\<forall>a \<in> set inp. a < n0" using assms(2) by (simp add: inp_def n0_def)
  have run: "merge_detections_heap h detections g
      = (list_append (fst res) (Suc l0) (snd res), Suc l0)"
    using False
    by (simp add: merge_detections_heap_def new_list_def dict_copy_def Let_def case_prod_beta
        res_def h3_def h2_def h1_def srt_def inp_def l0_def n0_def nth_append)
  have dicts3: "dicts h3 = dicts h @ [dicts h ! hd srt]"
    by (simp add: h3_def h2_def h1_def new_list_def dict_copy_def)
  have lists3: "lists h3 = lists h @ [srt, []]"
    by (simp add: h3_def h2_def h1_def new_list_def dict_copy_def)
  have q1: "\<forall>d \<in> set (tl srt). d < n0"
    using inp_lt srt_set srt_ne by (metis list.set_sel(2))
  have q2: "n0 < length (dicts h3)" by (simp add: dicts3 n0_def)
  have q3: "Suc l0 < length (lists h3)" by (simp add: lists3 l0_def)
  have m0: "lists h3 ! Suc l0 = []" by (simp add: lists3 l0_def nth_append)
  have q4: "\<forall>a \<in> set (lists h3 ! Suc l0). a < n0" by (simp add: m0)
  from merge_loop_heap_correct[OF q1 q2 q3 q4, of g] obtain h4 c4 where
    r: "merge_loop_heap g (Suc l0) (tl srt) h3 n0 = (h4, c4)" and
    i1: "n0 \<le> c4" "c4 < length (dicts h4)" and
    i2: "\<forall>a < n0. dicts h4 ! a = dicts h3 ! a" and
    i3: "length (lists h4) = length (lists h3)" and
    i4: "\<forall>l. l \<noteq> Suc l0 \<longrightarrow> lists h4 ! l = lists h3 ! l" and
    i5: "\<forall>a \<in> set (lists h4 ! Suc l0). a < c4" and
    i6: "\<forall>a \<in> set (lists h4 ! Suc l0). a \<in> set (lists h3 ! Suc l0) \<or> n0 \<le> a" and
    i7: "map (\<lambda>a. dicts h4 ! a) (lists h4 ! Suc l0) @ [dicts h4 ! c4]
        = merge_loop g (map (\<lambda>a. dicts h3 ! a) (lists h3 ! Suc l0)) (dicts h3 ! n0)
            (map (\<lambda>a. dicts h3 ! a) (tl srt))"
    by blast
  define h5 where "h5 = list_append h4 (Suc l0) c4"
  have res: "merge_detections_heap h detections g = (h5, Suc l0)"
    unfolding run res_def r h5_def by simp
  have d5: "dicts h5 = dicts h4" by (simp add: h5_def list_append_simps)
  have len5: "length (lists h5) = l0 + 2"
    by (simp add: h5_def list_append_simps i3 lists3 l0_def)
  have l5_old: "lists h5 ! l = lists h ! l" if "l < l0" for l
  proof -
    have "lists h5 ! l = lists h4 ! l" using that by (simp add: h5_def list_append_simps)
    also have "\<dots> = lists h3 ! l" using that i4 by simp
    also have "\<dots> = lists h ! l" using that by (simp add: lists3 l0_def nth_append)
    finally show ?thesis .
  qed
  have l5_out: "lists h5 ! Suc l0 = lists h4 ! Suc l0 @ [c4]"
    using q3 i3 by (simp add: h5_def list_append_simps)
  have old3: "dicts h3 ! a = dicts h ! a" if "a < n0" for a
    using that by (simp add: dicts3 n0_def nth_append)
  have d_old: "dicts h5 ! a = dicts h ! a" if "a < n0" for a
    using that i2 old3 d5 by simp
  have c1: "take (length (dicts h)) (dicts h5) = dicts h"
  proof (rule nth_equalityI)
    show "length (take (length (dicts h)) (dicts h5)) = length (dicts h)"
      using i1 d5 by (simp add: n0_def)
    show "take (length (dicts h)) (dicts h5) ! a = dicts h ! a"
      if "a < length (take (length (dicts h)) (dicts h5))" for a
      using that d_old[of a] by (simp add: n0_def)
  qed
  have c2: "take (length (lists h)) (lists h5) = lists h"
  proof (rule nth_equalityI)
    show "length (take (length (lists h)) (lists h5)) = length (lists h)"
      using len5 by (simp add: l0_def)
    show "take (length (lists h)) (lists h5) ! l = lists h ! l"
      if "l < length (take (length (lists h)) (lists h5))" for l
      using that l5_old[of l] by (simp add: l0_def)
  qed
  have c3: "lists h5 ! detections = lists h ! detections"
    using assms(1) l5_old[of detections] by (simp add: l0_def)
  have c4: "\<forall>a \<in> set (lists h ! detections). dicts h5 ! a = dicts h ! a"
    using inp_lt d_old by (simp add: inp_def)
  have c5: "length (lists h) \<le> Suc l0" "Suc l0 < length (lists h5)"
    using len5 by (simp_all add: l0_def)
  have c6: "\<forall>a \<in> set (lists h5 ! Suc l0). length (dicts h) \<le> a \<and> a < length (dicts h5)"
  proof
    fix a assume "a \<in> set (lists h5 ! Suc l0)"
    then consider "a \<in> set (lists h4 ! Suc l0)" | "a = c4" by (auto simp: l5_out)
    then show "length (dicts h) \<le> a \<and> a < length (dicts h5)"
    proof cases
      case 1
      then have "n0 \<le> a" "a < c4" using i6 i5 m0 by auto
      then show ?thesis using i1 d5 by (simp add: n0_def)
    next
      case 2
      then show ?thesis using i1 d5 by (simp add: n0_def)
    qed
  qed
  have first: "dicts h3 ! n0 = dicts h ! hd srt" by (simp add: dicts3 n0_def)
  have rest: "map (\<lambda>a. dicts h3 ! a) (tl srt) = map (\<lambda>a. dicts h ! a) (tl srt)"
    using q1 by (intro map_cong refl old3) auto
  have pure_sort: "sort_key start_time (map (\<lambda>a. dicts h ! a) inp) = map (\<lambda>a. dicts h ! a) srt"
    unfolding srt_def by (rule map_sort_key[symmetric])
  have ne: "map (\<lambda>a. dicts h ! a) inp \<noteq> []" using False by (simp add: inp_def)
  have "merge_detections (map (\<lambda>a. dicts h ! a) inp) g
      = merge_loop g [] (hd (sort_key start_time (map (\<lambda>a. dicts h ! a) inp)))
          (tl (sort_key start_time (map (\<lambda>a. dicts h ! a) inp)))"
    using ne by (simp add: merge_detections_def Let_def)
  also have "\<dots> = merge_loop g [] (hd (map (\<lambda>a. dicts h ! a) srt))
          (tl (map (\<lambda>a. dicts h ! a) srt))"
    by (simp only: pure_sort)
  also have "\<dots> = merge_loop g [] (dicts h ! hd srt) (map (\<lambda>a. dicts h ! a) (tl srt))"
    using srt_ne by (simp add: hd_map map_tl)
  finally have pure: "merge_detections (map (\<lambda>a. dicts h ! a) inp) g
      = merge_loop g [] (dicts h ! hd srt) (map (\<lambda>a. dicts h ! a) (tl srt))" .
  have c7: "map (\<lambda>a. dicts h5 ! a) (lists h5 ! Suc l0)
       = merge_detections (map (\<lambda>a. dicts h ! a) (lists h ! detections)) g"
    using i7 by (simp add: l5_out d5 m0 first rest pure inp_def[symmetric])
  show ?thesis
    using res c1 c2 c3 c4 c5 c6 c7 by blast
qed

text \<open>
  The theorem on a store with three events and the input list \<open>[0, 1, 2]\<close>: the call
  adds the sorted list, the result list and two new dictionaries, and leaves the three
  events and the input list as they were.
\<close>

theorem merge_detections_heap_frame_witness:
  "(0::nat) < length (lists
      \<lparr>dicts = [mk_detection 3 4 0.6 (Some ''Howl'') (Some 72),
                mk_detection 0.5 1.5 0.7 (Some ''Dog'') (Some 69),
                mk_detection 0 1 0.5 (Some ''Bark'') (Some 70)],
       lists = [[0, 1, 2]]\<rparr>) \<and>
   merge_detections_heap
      \<lparr>dicts = [mk_detection 3 4 0.6 (Some ''Howl'') (Some 72),
                mk_detection 0.5 1.5 0.7 (Some ''Dog'') (Some 69),
                mk_detection 0 1 0.5 (Some ''Bark'') (Some 70)],
       lists = [[0, 1, 2]]\<rparr> 0 1
    = (\<lparr>dicts = [mk_detection 3 4 0.6 (Some ''Howl'') (Some 72),
                 mk_detection 0.5 1.5 0.7 (Some ''Dog'') (Some 69),
                 mk_detection 0 1 0.5 (Some ''Bark'') (Some 70),
                 mk_detection 0 1.5 0.7 (Some ''Bark'') (Some 70),
                 mk_detection 3 4 0.6 (Some ''Howl'') (Some 72)],
        lists = [[0, 1, 2], [2, 1, 0], [3, 4]]\<rparr>, 2) \<and>
   (\<exists>h' merged.
      merge_detections_heap
        \<lparr>dicts = [mk_detection 3 4 0.6 (Some ''Howl'') (Some 72),
                  mk_detection 0.5 1.5 0.7 (Some ''Dog'') (Some 69),
                  mk_detection 0 1 0.5 (Some ''Bark'') (Some 70)],
         lists = [[0, 1, 2]]\<rparr> 0 1 = (h', merged) \<and>
      lists h' ! 0 = [0, 1, 2] \<and>
      dicts h' ! 0 = mk_detection 3 4 0.6 (Some ''Howl'') (Some 72) \<and>
      dicts h' ! 1 = mk_detection 0.5 1.5 0.7 (Some ''Dog'') (Some 69) \<and>
      dicts h' ! 2 = mk_detection 0 1 0.5 (Some ''Bark'') (Some 70))"
proof -
  let ?h = "\<lparr>dicts = [mk_detection 3 4 0.6 (Some ''Howl'') (Some 72),
                mk_detection 0.5 1.5 0.7 (Some ''Dog'') (Some 69),
                mk_detection 0 1 0.5 (Some ''Bark'') (Some 70)],
       lists = [[0, 1, 2]]\<rparr>"
  have h1: "(0::nat) < length (lists ?h)" by simp
  have h2: "\<forall>a \<in> set (lists ?h ! 0). a < length (dicts ?h)" by simp
  have e: "merge_detections_heap ?h 0 1
    = (\<lparr>dicts = [mk_detection 3 4 0.6 (Some ''Howl'') (Some 72),
                 mk_detection 0.5 1.5 0.7 (Some ''Dog'') (Some 69),
                 mk_detection 0 1 0.5 (Some ''Bark'') (Some 70),
                 mk_detection 0 1.5 0.7 (Some ''Bark'') (Some 70),
                 mk_detection 3 4 0.6 (Some ''Howl'') (Some 72)],
        lists = [[0, 1, 2], [2, 1, 0], [3, 4]]\<rparr>, 2)"
    by (simp add: merge_detections_heap_def new_list_def dict_copy_def list_append_def
        dict_update_def mk_detection_def Let_def)
  from merge_detections_heap_frame[OF h1 h2, of 1] obtain h' merged where
    r: "merge_detections_heap ?h 0 1 = (h', merged)" and
    l: "lists h' ! 0 = lists ?h ! 0" and
    d: "\<forall>a \<in> set (lists ?h ! 0). dicts h' ! a = dicts ?h ! a"
    by blast
  have l': "lists h' ! 0 = [0, 1, 2]" using l by simp
  have d0: "dicts h' ! 0 = mk_detection 3 4 0.6 (Some ''Howl'') (Some 72)"
    using d by simp
  have d1: "dicts h' ! 1 = mk_detection 0.5 1.5 0.7 (Some ''Dog'') (Some 69)"
    using d by simp
  have d2: "dicts h' ! 2 = mk_detection 0 1 0.5 (Some ''Bark'') (Some 70)"
    using d by simp
  show ?thesis using h1 e r l' d0 d1 d2 by blast
qed

end
